theory Spec2Isabelle
  imports Complex_Main "HOL-Library.Word"
begin

section \<open>JavaScript numbers\<close>

text \<open>
  The transfer engine computes with JavaScript numbers: byte counts, and the progress
  fraction obtained by dividing two of them. A finite number is modelled by its exact
  rational value (the rounding of a quotient to a double is not modelled); the three
  non-finite values are explicit, because \<open>0 / 0\<close> is \<open>NaN\<close> in the program and every
  comparison with \<open>NaN\<close> is false. Signed zeros are not distinguished: every divisor in the
  program is a size, which is never negative.
\<close>

datatype jsnum = Num rat | PosInf | NegInf | NaN

fun js_plus :: "jsnum \<Rightarrow> jsnum \<Rightarrow> jsnum" where
  "js_plus (Num a) (Num b) = Num (a + b)"
| "js_plus NaN _ = NaN"
| "js_plus _ NaN = NaN"
| "js_plus PosInf NegInf = NaN"
| "js_plus NegInf PosInf = NaN"
| "js_plus PosInf _ = PosInf"
| "js_plus _ PosInf = PosInf"
| "js_plus NegInf _ = NegInf"
| "js_plus _ NegInf = NegInf"

fun js_minus :: "jsnum \<Rightarrow> jsnum \<Rightarrow> jsnum" where
  "js_minus (Num a) (Num b) = Num (a - b)"
| "js_minus NaN _ = NaN"
| "js_minus _ NaN = NaN"
| "js_minus PosInf PosInf = NaN"
| "js_minus NegInf NegInf = NaN"
| "js_minus PosInf _ = PosInf"
| "js_minus _ NegInf = PosInf"
| "js_minus NegInf _ = NegInf"
| "js_minus _ PosInf = NegInf"

fun js_divide :: "jsnum \<Rightarrow> jsnum \<Rightarrow> jsnum" where
  "js_divide (Num a) (Num b) =
     (if b = 0 then (if a = 0 then NaN else if 0 < a then PosInf else NegInf)
      else Num (a / b))"
| "js_divide NaN _ = NaN"
| "js_divide _ NaN = NaN"
| "js_divide (Num a) _ = Num 0"
| "js_divide PosInf (Num b) = (if 0 \<le> b then PosInf else NegInf)"
| "js_divide NegInf (Num b) = (if 0 \<le> b then NegInf else PosInf)"
| "js_divide _ _ = NaN"

fun js_less :: "jsnum \<Rightarrow> jsnum \<Rightarrow> bool" where
  "js_less (Num a) (Num b) = (a < b)"
| "js_less NaN _ = False"
| "js_less _ NaN = False"
| "js_less PosInf _ = False"
| "js_less _ NegInf = False"
| "js_less _ PosInf = True"
| "js_less NegInf _ = True"

text \<open>\<open>x + undefined\<close> and \<open>undefined - x\<close> convert \<open>undefined\<close> to \<open>NaN\<close>.\<close>

fun ToNumber :: "jsnum option \<Rightarrow> jsnum" where
  "ToNumber None = NaN"
| "ToNumber (Some x) = x"

section \<open>Files and binary chunks\<close>

type_synonym byte = "8 word"

text \<open>A local \<open>File\<close>: its \<open>name\<close>, its \<open>type\<close> (the mime string) and its bytes;
  \<open>size\<close> is the number of bytes.\<close>

record jsfile =
  fileName :: string
  fileType :: string
  fileContent :: "byte list"

definition fileSize :: "jsfile \<Rightarrow> nat" where
  "fileSize f = length (fileContent f)"

text \<open>\<open>Blob.slice(start, end)\<close> for non-negative arguments: both ends are clamped to the
  size, and an empty span is the empty blob.\<close>

definition slice :: "byte list \<Rightarrow> nat \<Rightarrow> nat \<Rightarrow> byte list" where
  "slice bs start fin =
     (let relativeStart = min start (length bs);
          relativeEnd = min fin (length bs);
          span = relativeEnd - relativeStart
      in take span (drop relativeStart bs))"

text \<open>A binary frame is an \<open>ArrayBuffer\<close> (which has \<open>byteLength\<close> and no \<open>size\<close>) or a
  \<open>Blob\<close> (which has \<open>size\<close> and no \<open>byteLength\<close>).\<close>

datatype chunk = ArrayBuffer "byte list" | Blob "byte list"

fun chunkBytes :: "chunk \<Rightarrow> byte list" where
  "chunkBytes (ArrayBuffer bs) = bs"
| "chunkBytes (Blob bs) = bs"

section \<open>FileChunker\<close>

record chunker =
  chunkSize :: nat
  maxPartitionSize :: nat
  offset :: nat
  partitionSize :: nat
  cFile :: jsfile

text \<open>The two callbacks of the chunker are modelled by what they are called with.\<close>

datatype chunker_out = OnChunk "byte list" | OnPartitionEnd nat

definition FileChunker :: "jsfile \<Rightarrow> chunker" where
  "FileChunker f =
     \<lparr>chunkSize = 64000, maxPartitionSize = 1000000, offset = 0, partitionSize = 0, cFile = f\<rparr>"

text \<open>\<open>_readChunk\<close> asks the reader for the next slice; the value is what the reader's
  \<open>load\<close> event will deliver to \<open>_onChunkRead\<close>.\<close>

definition readChunk :: "chunker \<Rightarrow> byte list" where
  "readChunk c = slice (fileContent (cFile c)) (offset c) (offset c + chunkSize c)"

definition isPartitionEnd :: "chunker \<Rightarrow> bool" where
  "isPartitionEnd c = (partitionSize c \<ge> maxPartitionSize c)"

definition isFileEnd :: "chunker \<Rightarrow> bool" where
  "isFileEnd c = (offset c > fileSize (cFile c))"

definition progress :: "chunker \<Rightarrow> jsnum" where
  "progress c = js_divide (Num (of_nat (offset c))) (Num (of_nat (fileSize (cFile c))))"

text \<open>\<open>_onChunkRead\<close>: the new state, the callbacks made, and whether another read was
  issued (\<open>True\<close>) or the partition ended (\<open>False\<close>).\<close>

definition onChunkRead :: "chunker \<Rightarrow> byte list \<Rightarrow> chunker \<times> chunker_out list \<times> bool" where
  "onChunkRead c chunk =
     (let c1 = c\<lparr>offset := offset c + length chunk\<rparr>;
          c2 = c1\<lparr>partitionSize := partitionSize c1 + length chunk\<rparr>
      in if isPartitionEnd c2 \<or> isFileEnd c2
         then (c2, [OnChunk chunk, OnPartitionEnd (partitionSize c2)], False)
         else (c2, [OnChunk chunk], True))"

text \<open>\<open>nextPartition\<close> resets the partition counter and issues a read.\<close>

definition nextPartition :: "chunker \<Rightarrow> chunker" where
  "nextPartition c = c\<lparr>partitionSize := 0\<rparr>"

text \<open>\<open>Peer._sendNextPartition\<close>, run when the receiver acknowledges a partition:
  \<open>None\<close> when it returns without reading (no chunker, or file end), otherwise the chunker
  with a read pending.\<close>

fun sendNextPartition :: "chunker option \<Rightarrow> chunker option" where
  "sendNextPartition None = None"
| "sendNextPartition (Some c) = (if isFileEnd c then None else Some (nextPartition c))"

subsection \<open>The chunker as an event-driven machine\<close>

text \<open>
  Reads are asynchronous, so the chunker advances one event at a time. While a read is
  pending the next event is the reader's \<open>load\<close>; after a partition end the next event is
  the receiver's \<open>partition_received\<close> (the receiving \<open>Peer\<close> answers every \<open>partition\<close>
  message with one). \<open>Finished\<close> is the state in which no read is pending and none will be
  issued.
\<close>

datatype phase = ReadPending | AwaitAck | Finished

fun chunkerStep :: "chunker \<times> phase \<Rightarrow> (chunker \<times> phase) \<times> chunker_out list" where
  "chunkerStep (c, ReadPending) =
     (case onChunkRead c (readChunk c) of
        (c', outs, again) \<Rightarrow> ((c', if again then ReadPending else AwaitAck), outs))"
| "chunkerStep (c, AwaitAck) =
     (case sendNextPartition (Some c) of
        None \<Rightarrow> ((c, Finished), [])
      | Some c' \<Rightarrow> ((c', ReadPending), []))"
| "chunkerStep (c, Finished) = ((c, Finished), [])"

fun chunkerRun :: "nat \<Rightarrow> chunker \<times> phase \<Rightarrow> (chunker \<times> phase) \<times> chunker_out list" where
  "chunkerRun 0 s = (s, [])"
| "chunkerRun (Suc n) s =
     (case chunkerStep s of
        (s', outs) \<Rightarrow> (case chunkerRun n s' of (s'', outs') \<Rightarrow> (s'', outs @ outs')))"

text \<open>\<open>Peer._sendFile\<close> constructs the chunker and calls \<open>nextPartition\<close>.\<close>

definition startChunker :: "jsfile \<Rightarrow> chunker \<times> phase" where
  "startChunker f = (nextPartition (FileChunker f), ReadPending)"

fun chunksOf :: "chunker_out list \<Rightarrow> byte list list" where
  "chunksOf [] = []"
| "chunksOf (OnChunk b # outs) = b # chunksOf outs"
| "chunksOf (OnPartitionEnd _ # outs) = chunksOf outs"

definition helloFile :: jsfile where
  "helloFile = \<lparr>fileName = ''hi.txt'', fileType = ''text/plain'',
                fileContent = [104, 101, 108, 108, 111]\<rparr>"

definition emptyFile :: jsfile where
  "emptyFile = \<lparr>fileName = ''empty'', fileType = '''', fileContent = []\<rparr>"

definition blockFile :: jsfile where
  "blockFile = \<lparr>fileName = ''block.bin'', fileType = '''', fileContent = replicate 64000 0\<rparr>"

text \<open>The states the chunker is in after the content of the two sample files has been read.\<close>

definition helloDone :: chunker where
  "helloDone = \<lparr>chunkSize = 64000, maxPartitionSize = 1000000, offset = 5, partitionSize = 5,
                cFile = helloFile\<rparr>"

definition blockDone :: chunker where
  "blockDone = \<lparr>chunkSize = 64000, maxPartitionSize = 1000000, offset = 64000,
                partitionSize = 64000, cFile = blockFile\<rparr>"

section \<open>Strings and the built-in codecs of the text path\<close>

text \<open>
  A JavaScript string is a sequence of UTF-16 code units, each below \<open>2^16\<close>. The text path
  is a composition of six built-in functions; they are modelled after their definitions in
  the ECMAScript standard (\<open>encodeURIComponent\<close>, \<open>decodeURIComponent\<close>, \<open>escape\<close>,
  \<open>unescape\<close>) and the HTML standard (\<open>btoa\<close>, \<open>atob\<close>).
\<close>

type_synonym jsstring = "nat list"

datatype error = TypeError | URIError | InvalidCharacterError

definition isAlnum :: "nat \<Rightarrow> bool" where
  "isAlnum c = ((48 \<le> c \<and> c \<le> 57) \<or> (65 \<le> c \<and> c \<le> 90) \<or> (97 \<le> c \<and> c \<le> 122))"

text \<open>The characters \<open>encodeURIComponent\<close> leaves as they are: alphanumerics and
  \<open>- _ . ! ~ * ' ( )\<close>.\<close>

definition uriUnescaped :: "nat \<Rightarrow> bool" where
  "uriUnescaped c = (isAlnum c \<or> c = 45 \<or> c = 95 \<or> c = 46 \<or> c = 33 \<or> c = 126 \<or> c = 42 \<or>
                    c = 39 \<or> c = 40 \<or> c = 41)"

text \<open>The characters \<open>escape\<close> leaves as they are: alphanumerics and \<open>@ * _ + - . /\<close>.\<close>

definition escapeUnescaped :: "nat \<Rightarrow> bool" where
  "escapeUnescaped c = (isAlnum c \<or> c = 64 \<or> c = 42 \<or> c = 95 \<or> c = 43 \<or> c = 45 \<or> c = 46 \<or>
                       c = 47)"

definition hexDigit :: "nat \<Rightarrow> nat" where
  "hexDigit n = (if n < 10 then 48 + n else 55 + n)"

definition hexVal :: "nat \<Rightarrow> nat option" where
  "hexVal c =
     (if 48 \<le> c \<and> c \<le> 57 then Some (c - 48)
      else if 65 \<le> c \<and> c \<le> 70 then Some (c - 55)
      else if 97 \<le> c \<and> c \<le> 102 then Some (c - 87)
      else None)"

text \<open>The value of a string of hexadecimal digits; \<open>None\<close> when a character is not one.\<close>

fun hexValue :: "nat \<Rightarrow> nat list \<Rightarrow> nat option" where
  "hexValue acc [] = Some acc"
| "hexValue acc (c # cs) =
     (case hexVal c of None \<Rightarrow> None | Some v \<Rightarrow> hexValue (16 * acc + v) cs)"

text \<open>\<open>%XX\<close> for an octet, with upper-case digits.\<close>

definition percent :: "nat \<Rightarrow> jsstring" where
  "percent b = [37, hexDigit (b div 16), hexDigit (b mod 16)]"

definition isLeadSurrogate :: "nat \<Rightarrow> bool" where
  "isLeadSurrogate c = (55296 \<le> c \<and> c \<le> 56319)"

definition isTrailSurrogate :: "nat \<Rightarrow> bool" where
  "isTrailSurrogate c = (56320 \<le> c \<and> c \<le> 57343)"

definition surrogatePairToCodePoint :: "nat \<Rightarrow> nat \<Rightarrow> nat" where
  "surrogatePairToCodePoint lead trail = (lead - 55296) * 1024 + (trail - 56320) + 65536"

text \<open>A string is well formed when every code unit is below \<open>2^16\<close> and every surrogate
  is part of a pair, a leading one followed by a trailing one.\<close>

fun wellFormed :: "jsstring \<Rightarrow> bool" where
  "wellFormed [] = True"
| "wellFormed (c # rest) =
     (c < 65536 \<and>
      (if isLeadSurrogate c
       then (case rest of [] \<Rightarrow> False | d # rest' \<Rightarrow> isTrailSurrogate d \<and> wellFormed rest')
       else \<not> isTrailSurrogate c \<and> wellFormed rest))"

definition utf16Encode :: "nat \<Rightarrow> jsstring" where
  "utf16Encode cp =
     (if cp < 65536 then [cp]
      else [55296 + (cp - 65536) div 1024, 56320 + (cp - 65536) mod 1024])"

definition utf8Encode :: "nat \<Rightarrow> nat list" where
  "utf8Encode cp =
     (if cp < 128 then [cp]
      else if cp < 2048 then [192 + cp div 64, 128 + cp mod 64]
      else if cp < 65536 then [224 + cp div 4096, 128 + (cp div 64) mod 64, 128 + cp mod 64]
      else [240 + cp div 262144, 128 + (cp div 4096) mod 64, 128 + (cp div 64) mod 64,
            128 + cp mod 64])"

definition isContinuation :: "nat \<Rightarrow> bool" where
  "isContinuation b = (128 \<le> b \<and> b < 192)"

text \<open>The code point of a sequence of octets that is the valid UTF-8 encoding of one
  (shortest form, no surrogate, at most \<open>U+10FFFF\<close>); \<open>None\<close> for any other sequence.\<close>

fun utf8Decode :: "nat list \<Rightarrow> nat option" where
  "utf8Decode [b0, b1] =
     (let cp = (b0 - 192) * 64 + (b1 - 128)
      in if 192 \<le> b0 \<and> b0 < 224 \<and> isContinuation b1 \<and> 128 \<le> cp then Some cp else None)"
| "utf8Decode [b0, b1, b2] =
     (let cp = (b0 - 224) * 4096 + (b1 - 128) * 64 + (b2 - 128)
      in if 224 \<le> b0 \<and> b0 < 240 \<and> isContinuation b1 \<and> isContinuation b2 \<and> 2048 \<le> cp \<and>
            \<not> (55296 \<le> cp \<and> cp \<le> 57343)
         then Some cp else None)"
| "utf8Decode [b0, b1, b2, b3] =
     (let cp = (b0 - 240) * 262144 + (b1 - 128) * 4096 + (b2 - 128) * 64 + (b3 - 128)
      in if 240 \<le> b0 \<and> b0 < 248 \<and> isContinuation b1 \<and> isContinuation b2 \<and> isContinuation b3 \<and>
            65536 \<le> cp \<and> cp \<le> 1114111
         then Some cp else None)"
| "utf8Decode _ = None"

subsection \<open>\<open>encodeURIComponent\<close> and \<open>unescape\<close>\<close>

text \<open>\<open>encodeURIComponent\<close> throws a \<open>URIError\<close> at a surrogate that is not part of a
  pair.\<close>

fun encodeURIComponent :: "jsstring \<Rightarrow> error + jsstring" where
  "encodeURIComponent [] = Inr []"
| "encodeURIComponent (c # rest) =
     (if uriUnescaped c
      then (case encodeURIComponent rest of Inl e \<Rightarrow> Inl e | Inr r \<Rightarrow> Inr (c # r))
      else if isTrailSurrogate c then Inl URIError
      else if \<not> isLeadSurrogate c
      then (case encodeURIComponent rest of
              Inl e \<Rightarrow> Inl e
            | Inr r \<Rightarrow> Inr (concat (map percent (utf8Encode c)) @ r))
      else (case rest of
              [] \<Rightarrow> Inl URIError
            | d # rest' \<Rightarrow>
                if \<not> isTrailSurrogate d then Inl URIError
                else (case encodeURIComponent rest' of
                        Inl e \<Rightarrow> Inl e
                      | Inr r \<Rightarrow>
                          Inr (concat (map percent (utf8Encode (surrogatePairToCodePoint c d)))
                               @ r))))"

text \<open>After a percent sign \<open>unescape\<close> looks for \<open>uXXXX\<close>, then for \<open>XX\<close>; when neither is
  there the percent sign stands for itself.\<close>

definition hex4 :: "jsstring \<Rightarrow> nat option" where
  "hex4 rest =
     (if 5 \<le> length rest \<and> hd rest = 117 then hexValue 0 (take 4 (tl rest)) else None)"

definition hex2 :: "jsstring \<Rightarrow> nat option" where
  "hex2 rest = (if 2 \<le> length rest then hexValue 0 (take 2 rest) else None)"

fun unescape :: "jsstring \<Rightarrow> jsstring" where
  "unescape [] = []"
| "unescape (c # rest) =
     (if c = 37
      then (case hex4 rest of
              Some v \<Rightarrow> v # unescape (drop 5 rest)
            | None \<Rightarrow>
                (case hex2 rest of
                   Some v \<Rightarrow> v # unescape (drop 2 rest)
                 | None \<Rightarrow> c # unescape rest))
      else c # unescape rest)"

subsection \<open>\<open>btoa\<close> and \<open>atob\<close>\<close>

definition base64Char :: "nat \<Rightarrow> nat" where
  "base64Char n =
     (if n < 26 then 65 + n else if n < 52 then 71 + n else if n < 62 then n - 4
      else if n = 62 then 43 else 47)"

definition base64Val :: "nat \<Rightarrow> nat option" where
  "base64Val c =
     (if 65 \<le> c \<and> c \<le> 90 then Some (c - 65)
      else if 97 \<le> c \<and> c \<le> 122 then Some (c - 71)
      else if 48 \<le> c \<and> c \<le> 57 then Some (c + 4)
      else if c = 43 then Some 62
      else if c = 47 then Some 63
      else None)"

fun base64Encode :: "nat list \<Rightarrow> jsstring" where
  "base64Encode (x # y # z # rest) =
     [base64Char (x div 4), base64Char ((x mod 4) * 16 + y div 16),
      base64Char ((y mod 16) * 4 + z div 64), base64Char (z mod 64)] @ base64Encode rest"
| "base64Encode [x, y] =
     [base64Char (x div 4), base64Char ((x mod 4) * 16 + y div 16),
      base64Char ((y mod 16) * 4), 61]"
| "base64Encode [x] = [base64Char (x div 4), base64Char ((x mod 4) * 16), 61, 61]"
| "base64Encode [] = []"

text \<open>\<open>btoa\<close> throws when a code unit of its argument is above \<open>0xFF\<close>.\<close>

definition btoa :: "jsstring \<Rightarrow> error + jsstring" where
  "btoa s = (if list_ex (\<lambda>c. 255 < c) s then Inl InvalidCharacterError
             else Inr (base64Encode s))"

fun sextetsDecode :: "nat list \<Rightarrow> nat list" where
  "sextetsDecode (a # b # c # d # rest) =
     [a * 4 + b div 16, (b mod 16) * 16 + c div 4, (c mod 4) * 64 + d] @ sextetsDecode rest"
| "sextetsDecode [a, b, c] = [a * 4 + b div 16, (b mod 16) * 16 + c div 4]"
| "sextetsDecode [a, b] = [a * 4 + b div 16]"
| "sextetsDecode _ = []"

definition isAsciiWhitespace :: "nat \<Rightarrow> bool" where
  "isAsciiWhitespace c = (c = 9 \<or> c = 10 \<or> c = 12 \<or> c = 13 \<or> c = 32)"

text \<open>The padding step of the forgiving base64 decoding: when the length is a multiple of
  four, one or two \<open>=\<close> at the end are removed.\<close>

definition stripPadding :: "jsstring \<Rightarrow> jsstring" where
  "stripPadding d =
     (if length d mod 4 = 0 \<and> d \<noteq> [] \<and> last d = 61
      then (if butlast d \<noteq> [] \<and> last (butlast d) = 61 then butlast (butlast d) else butlast d)
      else d)"

definition atob :: "jsstring \<Rightarrow> error + jsstring" where
  "atob s =
     (let d = stripPadding (filter (\<lambda>c. \<not> isAsciiWhitespace c) s)
      in if length d mod 4 = 1 \<or> list_ex (\<lambda>c. base64Val c = None) d
         then Inl InvalidCharacterError
         else Inr (sextetsDecode (map (\<lambda>c. the (base64Val c)) d)))"

text \<open>A string of base64 characters is good data for a sequence of octets when the
  decoding accepts it and yields the octets.\<close>

definition goodData :: "nat list \<Rightarrow> nat list \<Rightarrow> bool" where
  "goodData d bs \<longleftrightarrow> length d mod 4 \<noteq> 1 \<and> \<not> list_ex (\<lambda>c. base64Val c = None) d \<and>
      sextetsDecode (map (\<lambda>c. the (base64Val c)) d) = bs"

subsection \<open>\<open>escape\<close> and \<open>decodeURIComponent\<close>\<close>

definition escapeUnit :: "nat \<Rightarrow> jsstring" where
  "escapeUnit c =
     (if escapeUnescaped c then [c]
      else if c < 256 then percent c
      else [37, 117, hexDigit (c div 4096), hexDigit ((c div 256) mod 16),
            hexDigit ((c div 16) mod 16), hexDigit (c mod 16)])"

definition escape :: "jsstring \<Rightarrow> jsstring" where
  "escape s = concat (map escapeUnit s)"

text \<open>The number of leading one bits of an octet.\<close>

definition leadingOnes :: "nat \<Rightarrow> nat" where
  "leadingOnes b =
     (if b < 128 then 0 else if b < 192 then 1 else if b < 224 then 2 else if b < 240 then 3
      else if b < 248 then 4 else 5)"

text \<open>\<open>n\<close> escape sequences \<open>%XX\<close> at the head of a string: their octets, or \<open>None\<close> when
  the string does not start with that many.\<close>

fun percentOctets :: "nat \<Rightarrow> jsstring \<Rightarrow> nat list option" where
  "percentOctets 0 s = Some []"
| "percentOctets (Suc n) s =
     (if 3 \<le> length s \<and> hd s = 37
      then (case hexValue 0 (take 2 (tl s)) of
              None \<Rightarrow> None
            | Some b \<Rightarrow> (case percentOctets n (drop 3 s) of
                          None \<Rightarrow> None
                        | Some bs \<Rightarrow> Some (b # bs)))
      else None)"

text \<open>\<open>decodeURIComponent\<close>: a character other than the percent sign stands for itself; an
  escape sequence gives an octet, which is an ASCII character or the first of the two to
  four octets of a code point. Anything else throws a \<open>URIError\<close>.\<close>

fun decodeURIComponent :: "jsstring \<Rightarrow> error + jsstring" where
  "decodeURIComponent [] = Inr []"
| "decodeURIComponent (c # rest) =
     (if c \<noteq> 37
      then (case decodeURIComponent rest of Inl e \<Rightarrow> Inl e | Inr r \<Rightarrow> Inr (c # r))
      else (case hex2 rest of
              None \<Rightarrow> Inl URIError
            | Some b \<Rightarrow>
                (let n = leadingOnes b in
                 if n = 0
                 then (case decodeURIComponent (drop 2 rest) of
                         Inl e \<Rightarrow> Inl e
                       | Inr r \<Rightarrow> Inr (b # r))
                 else if n = 1 \<or> 4 < n then Inl URIError
                 else (case percentOctets (n - 1) (drop 2 rest) of
                         None \<Rightarrow> Inl URIError
                       | Some bs \<Rightarrow>
                           (case utf8Decode (b # bs) of
                              None \<Rightarrow> Inl URIError
                            | Some cp \<Rightarrow>
                                (case decodeURIComponent (drop (3 * (n - 1)) (drop 2 rest)) of
                                   Inl e \<Rightarrow> Inl e
                                 | Inr r \<Rightarrow> Inr (utf16Encode cp @ r)))))))"

section \<open>FileDigester\<close>

text \<open>The header of a transfer as the digester receives it. A \<open>mime\<close> that is absent
  (\<open>undefined\<close> or \<open>null\<close>) is \<open>None\<close>.\<close>

record meta =
  metaName :: string
  metaMime :: "string option"
  metaSize :: nat

text \<open>\<open>URL.createObjectURL(new Blob(buffer, {type: mime}))\<close>: the handle stands for the
  parts and the type of the blob it refers to.\<close>

datatype url = ObjectURL "chunk list" string

record artifact =
  artName :: string
  artMime :: string
  artSize :: nat
  artUrl :: url

text \<open>The field \<open>callback\<close> tells whether \<open>_callback\<close> still holds the function it was
  constructed with; \<open>unchunk\<close> sets it to \<open>null\<close> after calling it. \<open>dProgress\<close> is
  \<open>undefined\<close> until the first \<open>unchunk\<close>.\<close>

record digester =
  buffer :: "chunk list"
  bytesReceived :: jsnum
  dSize :: nat
  dMime :: string
  dName :: string
  callback :: bool
  dProgress :: "jsnum option"

text \<open>\<open>meta.mime || 'application/octet-stream'\<close>: the empty string is falsy as well.\<close>

fun mimeOrDefault :: "string option \<Rightarrow> string" where
  "mimeOrDefault None = ''application/octet-stream''"
| "mimeOrDefault (Some s) = (if s = [] then ''application/octet-stream'' else s)"

definition FileDigester :: "meta \<Rightarrow> digester" where
  "FileDigester m =
     \<lparr>buffer = [], bytesReceived = Num 0, dSize = metaSize m, dMime = mimeOrDefault (metaMime m),
      dName = metaName m, callback = True, dProgress = None\<rparr>"

text \<open>\<open>chunk.byteLength || chunk.size\<close>. An \<open>ArrayBuffer\<close> has no \<open>size\<close>, so for an empty
  one the expression is \<open>undefined\<close>; a \<open>Blob\<close> has no \<open>byteLength\<close>, so it is its
  \<open>size\<close>.\<close>

fun byteLengthOrSize :: "chunk \<Rightarrow> jsnum option" where
  "byteLengthOrSize (ArrayBuffer bs) =
     (if length bs \<noteq> 0 then Some (Num (of_nat (length bs))) else None)"
| "byteLengthOrSize (Blob bs) = Some (Num (of_nat (length bs)))"

text \<open>What a call of \<open>unchunk\<close> does besides updating the state: it returns early, it calls
  the callback with the artifact, or it throws because \<open>_callback\<close> is \<open>null\<close>.\<close>

datatype unchunk_result = Pending | Completed artifact | Threw

definition unchunk :: "digester \<Rightarrow> chunk \<Rightarrow> digester \<times> unchunk_result" where
  "unchunk d chunk =
     (let d1 = d\<lparr>buffer := buffer d @ [chunk]\<rparr>;
          d2 = d1\<lparr>bytesReceived := js_plus (bytesReceived d1) (ToNumber (byteLengthOrSize chunk))\<rparr>;
          d3 = d2\<lparr>dProgress := Some (js_divide (bytesReceived d2) (Num (of_nat (dSize d2))))\<rparr>
      in if js_less (bytesReceived d3) (Num (of_nat (dSize d3))) then (d3, Pending)
         else if callback d3
         then (d3\<lparr>callback := False\<rparr>,
               Completed \<lparr>artName = dName d3, artMime = dMime d3, artSize = dSize d3,
                          artUrl = ObjectURL (buffer d3) (dMime d3)\<rparr>)
         else (d3, Threw))"

text \<open>A sequence of \<open>unchunk\<close> calls, each from its own message event: what each call did.
  A call that throws has already updated the state, and the next event is handled all the
  same.\<close>

fun unchunks :: "digester \<Rightarrow> chunk list \<Rightarrow> unchunk_result list" where
  "unchunks d [] = []"
| "unchunks d (c # cs) = (case unchunk d c of (d', r) \<Rightarrow> r # unchunks d' cs)"

fun isCompleted :: "unchunk_result \<Rightarrow> bool" where
  "isCompleted (Completed _) = True"
| "isCompleted _ = False"

text \<open>The number of bytes in a list of chunks.\<close>

definition received :: "chunk list \<Rightarrow> nat" where
  "received cs = sum_list (map (\<lambda>c. length (chunkBytes c)) cs)"

section \<open>Peer\<close>

text \<open>The frames of the session protocol that the modelled operations send.\<close>

datatype message =
    Header string "string option" nat
  | Partition nat
  | Progress "jsnum option"
  | TransferCompleteMsg
  | TextMsg jsstring

datatype event =
    FileProgress "string option" "jsnum option"
  | FileReceived artifact
  | NotifyUser string
  | TextReceived jsstring "string option"

text \<open>
  What an operation of a session does to the outside: \<open>sendJSON\<close> and \<open>_send\<close> hand a
  frame to the transport (which the abstract \<open>Peer\<close> leaves to its subclasses),
  \<open>Events.fire\<close> dispatches an event, and \<open>_sendFile\<close> constructs a chunker for a file and
  has it issue its first read.
\<close>

datatype action =
    SendJSON message
  | Fire event
  | StartChunker jsfile

record peer =
  peerId :: "string option"
  filesQueue :: "jsfile list"
  busy :: bool
  pChunker :: "chunker option"
  pDigester :: "digester option"
  lastProgress :: "jsnum option"

definition Peer :: "string option \<Rightarrow> peer" where
  "Peer pid = \<lparr>peerId = pid, filesQueue = [], busy = False, pChunker = None,
               pDigester = None, lastProgress = None\<rparr>"

definition sendFile :: "peer \<Rightarrow> jsfile \<Rightarrow> peer \<times> action list" where
  "sendFile p f =
     (p\<lparr>pChunker := Some (nextPartition (FileChunker f))\<rparr>,
      [SendJSON (Header (fileName f) (Some (fileType f)) (fileSize f)), StartChunker f])"

definition dequeueFile :: "peer \<Rightarrow> peer \<times> action list" where
  "dequeueFile p =
     (case filesQueue p of
        [] \<Rightarrow> (p, [])
      | f # rest \<Rightarrow> sendFile (p\<lparr>busy := True, filesQueue := rest\<rparr>) f)"

definition sendFiles :: "peer \<Rightarrow> jsfile list \<Rightarrow> peer \<times> action list" where
  "sendFiles p files =
     (let p1 = p\<lparr>filesQueue := filesQueue p @ files\<rparr>
      in if busy p1 then (p1, []) else dequeueFile p1)"

definition onDownloadProgress :: "peer \<Rightarrow> jsnum option \<Rightarrow> action list" where
  "onDownloadProgress p pr = [Fire (FileProgress (peerId p) pr)]"

text \<open>\<open>_onTransferCompleted\<close>. Its assignment to \<open>_reader\<close>, a field that nothing reads,
  has no counterpart here.\<close>

definition onTransferCompleted :: "peer \<Rightarrow> peer \<times> action list" where
  "onTransferCompleted p =
     (case dequeueFile (p\<lparr>busy := False\<rparr>) of
        (p', acts) \<Rightarrow>
          (p', onDownloadProgress p (Some (Num 1)) @ acts @
               [Fire (NotifyUser ''File transfer completed.'')]))"

definition onFileHeader :: "peer \<Rightarrow> string \<Rightarrow> string option \<Rightarrow> nat \<Rightarrow> peer" where
  "onFileHeader p nm mm sz =
     p\<lparr>lastProgress := Some (Num 0),
       pDigester := Some (FileDigester \<lparr>metaName = nm, metaMime = mm, metaSize = sz\<rparr>)\<rparr>"

definition onFileReceived :: "artifact \<Rightarrow> action list" where
  "onFileReceived proxyFile = [Fire (FileReceived proxyFile), SendJSON TransferCompleteMsg]"

text \<open>\<open>_onChunkReceived\<close>. An exception leaves the handler at once: the state changes and
  the actions made before it stay, the rest of the handler is not run.\<close>

definition onChunkReceived :: "peer \<Rightarrow> chunk \<Rightarrow> peer \<times> action list \<times> error option" where
  "onChunkReceived p chunk =
     (case pDigester p of
        None \<Rightarrow> (p, [], Some TypeError)
      | Some d \<Rightarrow>
          (case unchunk d chunk of
             (d', Threw) \<Rightarrow> (p\<lparr>pDigester := Some d'\<rparr>, [], Some TypeError)
           | (d', r) \<Rightarrow>
               (let p1 = p\<lparr>pDigester := Some d'\<rparr>;
                    acts0 = (case r of Completed a \<Rightarrow> onFileReceived a | _ \<Rightarrow> []);
                    pr = dProgress d';
                    acts1 = acts0 @ onDownloadProgress p1 pr
                in if js_less (js_minus (ToNumber pr) (ToNumber (lastProgress p1))) (Num (1 / 100))
                   then (p1, acts1, None)
                   else (p1\<lparr>lastProgress := pr\<rparr>, acts1 @ [SendJSON (Progress pr)], None))))"

text \<open>\<open>sendText\<close>: the frame handed to \<open>sendJSON\<close>, or the exception thrown on the way.
  \<open>text: btoa(unescape(encodeURIComponent(text)))\<close>.\<close>

definition sendText :: "jsstring \<Rightarrow> error + message" where
  "sendText text =
     (case encodeURIComponent text of
        Inl e \<Rightarrow> Inl e
      | Inr enc \<Rightarrow> (case btoa (unescape enc) of Inl e \<Rightarrow> Inl e | Inr b \<Rightarrow> Inr (TextMsg b)))"

text \<open>\<open>_onTextReceived\<close> for the \<open>text\<close> field of a received frame: the event fired, with
  \<open>text: decodeURIComponent(escape(atob(message.text)))\<close>.\<close>

definition onTextReceived :: "peer \<Rightarrow> jsstring \<Rightarrow> error + event" where
  "onTextReceived p text =
     (case atob text of
        Inl e \<Rightarrow> Inl e
      | Inr s \<Rightarrow> (case decodeURIComponent (escape s) of
                    Inl e \<Rightarrow> Inl e
                  | Inr t \<Rightarrow> Inr (TextReceived t (peerId p))))"

text \<open>The outbound side of a session is driven by two kinds of events: the user selects
  files, and the remote side reports a transfer complete.\<close>

datatype peer_event = SendFiles "jsfile list" | TransferComplete

fun peerStep :: "peer \<Rightarrow> peer_event \<Rightarrow> peer \<times> action list" where
  "peerStep p (SendFiles files) = sendFiles p files"
| "peerStep p TransferComplete = onTransferCompleted p"

fun peerRun :: "peer \<Rightarrow> peer_event list \<Rightarrow> peer \<times> action list" where
  "peerRun p [] = (p, [])"
| "peerRun p (e # es) =
     (case peerStep p e of
        (p', acts) \<Rightarrow> (case peerRun p' es of (p'', acts') \<Rightarrow> (p'', acts @ acts')))"

fun startedFiles :: "action list \<Rightarrow> jsfile list" where
  "startedFiles [] = []"
| "startedFiles (StartChunker f # acts) = f # startedFiles acts"
| "startedFiles (_ # acts) = startedFiles acts"

fun submitted :: "peer_event list \<Rightarrow> jsfile list" where
  "submitted [] = []"
| "submitted (SendFiles files # es) = files @ submitted es"
| "submitted (TransferComplete # es) = submitted es"

fun completions :: "peer_event list \<Rightarrow> nat" where
  "completions [] = 0"
| "completions (SendFiles _ # es) = completions es"
| "completions (TransferComplete # es) = Suc (completions es)"

section \<open>RTCPeer\<close>

datatype ready_state = Connecting | Open | Closing | Closed

record channel =
  readyState :: ready_state

datatype connection_state =
  StateNew | StateConnecting | StateConnected | StateDisconnected | StateFailed | StateClosed

record connection =
  connectionState :: connection_state

text \<open>What the handshake operations ask of the browser: a new \<open>RTCPeerConnection\<close>, a
  data channel on it, an offer, or listening for the channel the remote side creates.\<close>

datatype rtc_action = NewRTCPeerConnection | CreateDataChannel | CreateOffer | SetOnDataChannel

text \<open>
  \<open>RTCPeer\<close> extends \<open>Peer\<close>. Its fields \<open>_isCaller\<close>, \<open>_peer\<close> and \<open>_channel\<close> are
  \<open>isCallerPrivate\<close>, \<open>rtcConnection\<close> and \<open>dataChannel\<close>; each is \<open>undefined\<close> until
  assigned. \<open>isCaller\<close> is the property of that name, without the underscore, which
  \<open>_onChannelClosed\<close> reads; neither class defines it.
\<close>

record rtcpeer = peer +
  isCallerPrivate :: "bool option"
  isCaller :: "bool option"
  rtcConnection :: "connection option"
  dataChannel :: "channel option"

text \<open>Truthiness of a value that is \<open>undefined\<close> or a boolean, and of one that is
  \<open>undefined\<close> or a string.\<close>

fun truthy :: "bool option \<Rightarrow> bool" where
  "truthy (Some b) = b"
| "truthy None = False"

fun truthyString :: "string option \<Rightarrow> bool" where
  "truthyString (Some s) = (s \<noteq> [])"
| "truthyString None = False"

definition createChannel :: "rtc_action list" where
  "createChannel = [CreateDataChannel, CreateOffer]"

definition start :: "rtcpeer \<Rightarrow> string option \<Rightarrow> bool option \<Rightarrow> rtcpeer \<times> rtc_action list" where
  "start p pid caller =
     (case (if rtcConnection p = None
            then (p\<lparr>peerId := pid, isCallerPrivate := caller,
                    rtcConnection := Some \<lparr>connectionState = StateNew\<rparr>\<rparr>,
                  [NewRTCPeerConnection])
            else (p, [])) of
        (p1, acts) \<Rightarrow>
          if truthy caller then (p1, acts @ createChannel) else (p1, acts @ [SetOnDataChannel]))"

definition RTCPeer :: "string option \<Rightarrow> rtcpeer \<times> rtc_action list" where
  "RTCPeer pid =
     (let p = peer.extend (Peer pid)
                (rtcpeer.fields None None None None)
      in if \<not> truthyString pid then (p, []) else start p pid (Some True))"

definition onChannelOpened :: "rtcpeer \<Rightarrow> channel \<Rightarrow> rtcpeer" where
  "onChannelOpened p ch = p\<lparr>dataChannel := Some ch\<rparr>"

definition onChannelClosed :: "rtcpeer \<Rightarrow> rtcpeer \<times> rtc_action list" where
  "onChannelClosed p =
     (if \<not> truthy (isCaller p) then (p, []) else start p (peerId p) (Some True))"

text \<open>\<open>_onConnectionStateChange\<close> reads \<open>this._peer.connectionState\<close>, which throws when
  \<open>_peer\<close> is \<open>null\<close>.\<close>

definition onConnectionStateChange :: "rtcpeer \<Rightarrow> error + rtcpeer \<times> rtc_action list" where
  "onConnectionStateChange p =
     (case rtcConnection p of
        None \<Rightarrow> Inl TypeError
      | Some conn \<Rightarrow>
          (case connectionState conn of
             StateDisconnected \<Rightarrow> Inr (onChannelClosed p)
           | StateFailed \<Rightarrow> Inr (onChannelClosed (p\<lparr>rtcConnection := None\<rparr>))
           | _ \<Rightarrow> Inr (p, [])))"

definition refresh :: "rtcpeer \<Rightarrow> rtcpeer \<times> rtc_action list" where
  "refresh p =
     (if rtcConnection p \<noteq> None \<and>
         (case dataChannel p of None \<Rightarrow> False | Some ch \<Rightarrow> readyState ch \<noteq> Open)
      then (p, [])
      else start p (peerId p) (isCallerPrivate p))"

text \<open>A caller session for the peer \<open>B\<close>, as the constructor leaves it, and the same
  session once its data channel is there in a given state.\<close>

definition callerB :: rtcpeer where
  "callerB = fst (RTCPeer (Some ''B''))"

definition callerWith :: "ready_state \<Rightarrow> rtcpeer" where
  "callerWith st = onChannelOpened callerB \<lparr>readyState = st\<rparr>"

section \<open>PeersManager\<close>

text \<open>A registered session is an \<open>RTCPeer\<close> or a \<open>WSPeer\<close>; the latter class has no
  constructor and no field.\<close>

datatype session = RTCSession rtcpeer | WSSession

type_synonym registry = "string \<rightharpoonup> session"

datatype manager_action = CloseConnection connection

text \<open>The expression \<open>peer._peer\<close>: a \<open>TypeError\<close> when \<open>peer\<close> is \<open>undefined\<close>,
  \<open>undefined\<close> for a session without that field or with nothing assigned to it.\<close>

fun peerField :: "session option \<Rightarrow> error + connection option" where
  "peerField None = Inl TypeError"
| "peerField (Some (RTCSession p)) = Inr (rtcConnection p)"
| "peerField (Some WSSession) = Inr None"

text \<open>\<open>_onPeerLeft\<close>. In \<open>!peer || !peer._peer\<close> the right operand is evaluated only when
  the left one is false.\<close>

definition onPeerLeft :: "registry \<Rightarrow> string \<Rightarrow> error + registry \<times> manager_action list" where
  "onPeerLeft peers pid =
     (let peer = peers pid;
          peers1 = peers(pid := None)
      in if peer = None then Inr (peers1, [])
         else (case peerField peer of
                 Inl e \<Rightarrow> Inl e
               | Inr None \<Rightarrow> Inr (peers1, [])
               | Inr (Some conn) \<Rightarrow> Inr (peers1, [CloseConnection conn])))"


section \<open>Properties of the chunker\<close>

lemma length_slice: "length (slice bs s e) = min e (length bs) - min s (length bs)"
  by (simp add: slice_def Let_def)

lemma slice_take_drop: "slice bs s e = take (e - s) (drop s bs)"
  by (cases "s \<le> length bs") (auto simp: slice_def Let_def min_def)

lemma length_readChunk_le: "length (readChunk c) \<le> chunkSize c"
  unfolding readChunk_def length_slice by arith

lemma readChunk_within:
  "offset c \<le> fileSize (cFile c) \<Longrightarrow> offset c + length (readChunk c) \<le> fileSize (cFile c)"
  unfolding readChunk_def length_slice fileSize_def by arith

subsection \<open>The offset never passes the file size\<close>

lemma chunkerStep_offset_le:
  "offset c \<le> fileSize (cFile c) \<Longrightarrow> p \<noteq> Finished \<Longrightarrow>
   chunkerStep (c, p) = ((c', p'), outs) \<Longrightarrow>
   cFile c' = cFile c \<and> offset c' \<le> fileSize (cFile c) \<and> p' \<noteq> Finished"
  using readChunk_within [of c]
  by (cases p) (auto simp: onChunkRead_def Let_def nextPartition_def isFileEnd_def split: if_splits)

lemma chunkerRun_offset_le:
  "offset c \<le> fileSize (cFile c) \<Longrightarrow> p \<noteq> Finished \<Longrightarrow>
   chunkerRun n (c, p) = ((c', p'), outs) \<Longrightarrow>
   cFile c' = cFile c \<and> offset c' \<le> fileSize (cFile c) \<and> p' \<noteq> Finished"
proof (induction n arbitrary: c p c' p' outs)
  case 0
  then show ?case by simp
next
  case (Suc n)
  obtain c1 p1 o1 where st: "chunkerStep (c, p) = ((c1, p1), o1)"
    by (metis prod.exhaust)
  obtain c2 p2 o2 where rn: "chunkerRun n (c1, p1) = ((c2, p2), o2)"
    by (metis prod.exhaust)
  from chunkerStep_offset_le [OF Suc.prems(1) Suc.prems(2) st]
  have i1: "offset c1 \<le> fileSize (cFile c1)" "cFile c1 = cFile c" "p1 \<noteq> Finished" by auto
  from Suc.prems(3) st rn have eq: "c2 = c'" "p2 = p'" by simp_all
  from Suc.IH [OF i1(1) i1(3) rn]
  have "offset c2 \<le> fileSize (cFile c1)" "cFile c2 = cFile c1" "p2 \<noteq> Finished"
    by simp_all
  with i1(2) eq show ?case by simp
qed

lemma startChunker_reach:
  assumes "chunkerRun n (startChunker f) = ((c, p), outs)"
  shows "cFile c = f \<and> offset c \<le> fileSize f \<and> p \<noteq> Finished"
proof -
  have "offset (nextPartition (FileChunker f)) \<le> fileSize (cFile (nextPartition (FileChunker f)))"
    by (simp add: nextPartition_def FileChunker_def)
  from chunkerRun_offset_le [OF this _ assms [unfolded startChunker_def]]
  show ?thesis by (simp add: nextPartition_def FileChunker_def)
qed

text \<open>Whatever the file, \<open>isFileEnd\<close> is false in every state the chunker reaches, so the
  machine never comes to rest: every acknowledgement starts another partition.\<close>

lemma isFileEnd_never:
  "chunkerRun n (startChunker f) = ((c, p), outs) \<Longrightarrow> \<not> isFileEnd c"
  using startChunker_reach [of n f c p outs] by (simp add: isFileEnd_def)

lemma chunker_never_finished:
  "snd (fst (chunkerRun n (startChunker f))) \<noteq> Finished"
proof -
  obtain c p outs where "chunkerRun n (startChunker f) = ((c, p), outs)"
    by (metis prod.exhaust)
  with startChunker_reach [OF this] show ?thesis by simp
qed

subsection \<open>What the emitted chunks are\<close>

text \<open>At every moment the chunks emitted so far, concatenated, are the first \<open>offset\<close>
  bytes of the file, and none is longer than the chunk size.\<close>

lemma take_offset_readChunk:
  "take (offset c) (fileContent (cFile c)) @ readChunk c =
     take (offset c + length (readChunk c)) (fileContent (cFile c))"
proof -
  have "readChunk c = take (chunkSize c) (drop (offset c) (fileContent (cFile c)))"
    by (simp add: readChunk_def slice_take_drop)
  then have "readChunk c = take (length (readChunk c)) (drop (offset c) (fileContent (cFile c)))"
    by (metis append_eq_conv_conj append_take_drop_id)
  then show ?thesis by (metis take_add)
qed

lemma chunkerStep_chunks:
  assumes "chunkerStep (c, p) = ((c', p'), outs)"
  shows "take (offset c) (fileContent (cFile c)) @ concat (chunksOf outs) =
           take (offset c') (fileContent (cFile c)) \<and> cFile c' = cFile c \<and>
         chunkSize c' = chunkSize c \<and>
         (\<forall>b \<in> set (chunksOf outs). length b \<le> chunkSize c)"
  using assms take_offset_readChunk [of c] length_readChunk_le [of c]
  by (cases p) (auto simp: onChunkRead_def Let_def nextPartition_def split: if_splits)

lemma chunksOf_append: "chunksOf (xs @ ys) = chunksOf xs @ chunksOf ys"
  by (induction xs rule: chunksOf.induct) simp_all

lemma chunkerRun_chunks:
  "chunkerRun n (c, p) = ((c', p'), outs) \<Longrightarrow>
     take (offset c) (fileContent (cFile c)) @ concat (chunksOf outs) =
       take (offset c') (fileContent (cFile c)) \<and> cFile c' = cFile c \<and>
     chunkSize c' = chunkSize c \<and>
     (\<forall>b \<in> set (chunksOf outs). length b \<le> chunkSize c)"
proof (induction n arbitrary: c p c' p' outs)
  case 0
  then show ?case by simp
next
  case (Suc n)
  obtain c1 p1 o1 where st: "chunkerStep (c, p) = ((c1, p1), o1)"
    by (metis prod.exhaust)
  obtain c2 p2 o2 where rn: "chunkerRun n (c1, p1) = ((c2, p2), o2)"
    by (metis prod.exhaust)
  from Suc.prems st rn have eq: "c' = c2" "p' = p2" "outs = o1 @ o2" by simp_all
  from chunkerStep_chunks [OF st]
  have s: "take (offset c) (fileContent (cFile c)) @ concat (chunksOf o1) =
           take (offset c1) (fileContent (cFile c))" "cFile c1 = cFile c" "chunkSize c1 = chunkSize c"
         "\<forall>b \<in> set (chunksOf o1). length b \<le> chunkSize c"
    by simp_all
  from Suc.IH [OF rn] s(2,3)
  have r: "take (offset c1) (fileContent (cFile c)) @ concat (chunksOf o2) =
           take (offset c2) (fileContent (cFile c))" "cFile c2 = cFile c" "chunkSize c2 = chunkSize c"
         "\<forall>b \<in> set (chunksOf o2). length b \<le> chunkSize c"
    by simp_all
  have "take (offset c) (fileContent (cFile c)) @ concat (chunksOf (o1 @ o2)) =
        (take (offset c) (fileContent (cFile c)) @ concat (chunksOf o1)) @ concat (chunksOf o2)"
    by (simp add: chunksOf_append)
  also have "\<dots> = take (offset c2) (fileContent (cFile c))" unfolding s(1) r(1) ..
  finally show ?case unfolding eq using s(4) r(2,3,4) by (auto simp: chunksOf_append)
qed

lemma chunks_are_a_prefix:
  assumes "chunkerRun n (startChunker f) = ((c, p), outs)"
  shows "concat (chunksOf outs) = take (offset c) (fileContent f)"
    and "\<forall>b \<in> set (chunksOf outs). length b \<le> 64000"
  using chunkerRun_chunks [OF assms [unfolded startChunker_def]]
  by (simp_all add: nextPartition_def FileChunker_def)

subsection \<open>The five-byte file\<close>

lemma hello_first:
  "chunkerStep (startChunker helloFile) =
     ((helloDone, ReadPending), [OnChunk [104, 101, 108, 108, 111]])"
  by (simp add: startChunker_def nextPartition_def FileChunker_def helloFile_def helloDone_def
      onChunkRead_def readChunk_def slice_def isPartitionEnd_def isFileEnd_def fileSize_def Let_def)

lemma hello_idle:
  "chunkerStep (helloDone, ReadPending) = ((helloDone, ReadPending), [OnChunk []])"
  by (simp add: helloFile_def helloDone_def
      onChunkRead_def readChunk_def slice_def isPartitionEnd_def isFileEnd_def fileSize_def Let_def)

lemma hello_idle_run:
  "chunkerRun n (helloDone, ReadPending) = ((helloDone, ReadPending), replicate n (OnChunk []))"
  by (induction n) (simp_all add: hello_idle del: chunkerStep.simps)

text \<open>
  Claim C1. The chunker is claimed to emit exactly \<open>ceil(size / chunk_size)\<close> chunks and to
  stop after the last one. For the five-byte file that is one chunk. The code emits the
  five bytes and then, at every further \<open>load\<close> event, an empty chunk: after \<open>n + 1\<close>
  events it has emitted \<open>n + 1\<close> chunks, has signalled no partition end and has a read
  pending again, because \<open>isFileEnd\<close> asks for an offset beyond the size, which the clamped
  slice never produces.
\<close>

theorem chunker_hello_never_stops:
  "chunkerRun (Suc n) (startChunker helloFile) =
     ((helloDone, ReadPending), OnChunk [104, 101, 108, 108, 111] # replicate n (OnChunk []))"
  by (simp add: hello_first hello_idle_run del: chunkerStep.simps)

subsection \<open>A file of exactly one chunk size\<close>

text \<open>
  Claim C7. For a file whose size is a positive multiple of the chunk size, \<open>isFileEnd\<close> is
  claimed to be true at the chunk after which the offset equals the file size, that chunk
  being the last. For the file of 64000 bytes the first chunk has 64000 bytes and brings
  the offset to the file size, but \<open>isFileEnd\<close> is false there, no partition end is
  signalled, another read is issued, and the chunk emitted next is empty.
\<close>

theorem isFileEnd_false_at_exact_multiple:
  "chunkerStep (startChunker blockFile) =
     ((blockDone, ReadPending), [OnChunk (replicate 64000 0)]) \<and>
   offset blockDone = fileSize blockFile \<and>
   fileSize blockFile = 1 * chunkSize blockDone \<and>
   \<not> isFileEnd blockDone \<and>
   chunkerStep (blockDone, ReadPending) = ((blockDone, ReadPending), [OnChunk []])"
  by (simp add: startChunker_def nextPartition_def FileChunker_def blockFile_def blockDone_def
      onChunkRead_def readChunk_def slice_def isPartitionEnd_def isFileEnd_def fileSize_def Let_def)

subsection \<open>The progress getter\<close>

text \<open>
  Claim C9, as stated, gives the progress of every chunker state, the empty file included,
  as a value clamped to \<open>[0,1]\<close>. For the empty file the getter divides zero by zero.
\<close>

theorem progress_empty_file_counterexample:
  "progress (FileChunker emptyFile) = NaN"
  by (simp add: progress_def FileChunker_def emptyFile_def fileSize_def)

text \<open>
  Claim C9, amended. For a file of positive size, in every state the chunker reaches the
  getter returns the offset divided by the file size, and that quotient lies in \<open>[0,1]\<close>
  (the code does not clamp; the offset never passes the size).
\<close>

theorem progress_in_unit_interval:
  assumes "0 < fileSize f" and "chunkerRun n (startChunker f) = ((c, p), outs)"
  shows "progress c = Num (of_nat (offset c) / of_nat (fileSize f)) \<and>
         (0::rat) \<le> of_nat (offset c) / of_nat (fileSize f) \<and>
         (of_nat (offset c) / of_nat (fileSize f) :: rat) \<le> 1"
proof -
  from startChunker_reach [OF assms(2)]
  have f: "cFile c = f" and le: "offset c \<le> fileSize f" by simp_all
  from assms(1) have "progress c = Num (of_nat (offset c) / of_nat (fileSize f))"
    by (simp add: progress_def f)
  moreover from assms(1) le
  have "(of_nat (offset c) / of_nat (fileSize f) :: rat) \<le> 1" by simp
  ultimately show ?thesis by simp
qed

theorem progress_in_unit_interval_witness:
  "0 < fileSize helloFile \<and>
   chunkerRun 1 (startChunker helloFile) =
     ((helloDone, ReadPending), [OnChunk [104, 101, 108, 108, 111]]) \<and>
   progress helloDone = Num 1"
proof -
  have s: "0 < fileSize helloFile" by (simp add: fileSize_def helloFile_def)
  have r: "chunkerRun 1 (startChunker helloFile) =
     ((helloDone, ReadPending), [OnChunk [104, 101, 108, 108, 111]])"
    by (simp add: hello_first del: chunkerStep.simps)
  from progress_in_unit_interval [OF s r] s r show ?thesis
    by (simp add: helloDone_def fileSize_def helloFile_def)
qed

section \<open>Properties of the outbound queue\<close>

lemma startedFiles_append: "startedFiles (xs @ ys) = startedFiles xs @ startedFiles ys"
  by (induction xs rule: startedFiles.induct) simp_all

lemma dequeueFile_props:
  assumes "dequeueFile p = (p', acts)"
  shows "startedFiles acts @ filesQueue p' = filesQueue p"
    and "length (startedFiles acts) \<le> 1"
    and "busy p' = (busy p \<or> filesQueue p \<noteq> [])"
    and "startedFiles acts = [] \<longleftrightarrow> filesQueue p = []"
  using assms by (auto simp: dequeueFile_def sendFile_def split: list.splits)

lemma peerStep_props:
  assumes "peerStep p e = (p', acts)"
  shows "startedFiles acts @ filesQueue p' = filesQueue p @ submitted [e]"
    and "length (startedFiles acts) + (if busy p then 1 else 0)
           \<le> completions [e] + (if busy p' then 1 else 0)"
    and "(\<not> busy p \<longrightarrow> filesQueue p = []) \<Longrightarrow> (\<not> busy p' \<longrightarrow> filesQueue p' = [])"
  using assms
  by (cases e; auto simp: sendFiles_def onTransferCompleted_def onDownloadProgress_def Let_def
        dequeueFile_def sendFile_def startedFiles_append
        split: if_splits prod.splits list.splits)+

lemma submitted_Cons: "submitted (e # es) = submitted [e] @ submitted es"
  by (cases e) simp_all

lemma completions_Cons: "completions (e # es) = completions [e] + completions es"
  by (cases e) simp_all

lemma peerRun_props:
  assumes "peerRun p0 es = (p, acts)"
  shows "startedFiles acts @ filesQueue p = filesQueue p0 @ submitted es
       \<and> length (startedFiles acts) + (if busy p0 then 1 else 0)
           \<le> completions es + (if busy p then 1 else 0)
       \<and> ((\<not> busy p0 \<longrightarrow> filesQueue p0 = []) \<longrightarrow> (\<not> busy p \<longrightarrow> filesQueue p = []))"
  using assms
proof (induction es arbitrary: p0 p acts)
  case Nil
  then show ?case by simp
next
  case (Cons e es)
  obtain p1 a1 where st: "peerStep p0 e = (p1, a1)" by (metis prod.exhaust)
  obtain p2 a2 where rn: "peerRun p1 es = (p2, a2)" by (metis prod.exhaust)
  from Cons.prems st rn have eq: "p = p2" "acts = a1 @ a2" by simp_all
  note s = peerStep_props [OF st]
  from Cons.IH [OF rn]
  have r1: "startedFiles a2 @ filesQueue p2 = filesQueue p1 @ submitted es"
    and r2: "length (startedFiles a2) + (if busy p1 then 1 else 0)
           \<le> completions es + (if busy p2 then 1 else 0)"
    and r3: "(\<not> busy p1 \<longrightarrow> filesQueue p1 = []) \<longrightarrow> (\<not> busy p2 \<longrightarrow> filesQueue p2 = [])"
    by blast+
  have "startedFiles (a1 @ a2) @ filesQueue p2 = filesQueue p0 @ submitted (e # es)"
    using s(1) r1 by (simp add: startedFiles_append submitted_Cons [of e es])
  moreover have "length (startedFiles (a1 @ a2)) + (if busy p0 then 1 else 0)
           \<le> completions (e # es) + (if busy p2 then 1 else 0)"
    using s(2) r2 by (simp add: completions_Cons [of e es] startedFiles_append)
  moreover have "(\<not> busy p0 \<longrightarrow> filesQueue p0 = []) \<longrightarrow> (\<not> busy p2 \<longrightarrow> filesQueue p2 = [])"
    using s(3) r3 by blast
  ultimately show ?case unfolding eq by blast
qed

text \<open>
  Claim C2. From a fresh session, after any sequence of \<open>sendFiles\<close> calls and
  \<open>transfer-complete\<close> messages: the files whose transfers were started, followed by the
  files still queued, are the submitted files in the order of submission; the number of
  transfers started is at most the number of \<open>transfer-complete\<close> messages, plus one if
  the session is busy, so at most one started transfer is not yet completed; an idle
  session has an empty queue; while the session is busy \<open>sendFiles\<close> starts nothing and
  leaves it busy; and a \<open>transfer-complete\<close> message starts exactly the head of the queue.
\<close>

theorem sendFiles_one_in_flight_fifo:
  assumes "peerRun (Peer pid) es = (p, acts)"
  shows "startedFiles acts @ filesQueue p = submitted es \<and>
         length (startedFiles acts) \<le> completions es + (if busy p then 1 else 0) \<and>
         (\<not> busy p \<longrightarrow> filesQueue p = []) \<and>
         (busy p \<longrightarrow> startedFiles (snd (sendFiles p files)) = [] \<and> busy (fst (sendFiles p files))) \<and>
         (\<forall>f rest. filesQueue p = f # rest \<longrightarrow>
            startedFiles (snd (onTransferCompleted p)) = [f] \<and>
            filesQueue (fst (onTransferCompleted p)) = rest \<and>
            busy (fst (onTransferCompleted p)))"
proof -
  from peerRun_props [OF assms]
  have "startedFiles acts @ filesQueue p = submitted es"
    and "length (startedFiles acts) \<le> completions es + (if busy p then 1 else 0)"
    and "\<not> busy p \<longrightarrow> filesQueue p = []"
    by (simp_all add: Peer_def)
  moreover have "busy p \<longrightarrow>
      startedFiles (snd (sendFiles p files)) = [] \<and> busy (fst (sendFiles p files))"
    by (simp add: sendFiles_def Let_def)
  moreover have "\<forall>f rest. filesQueue p = f # rest \<longrightarrow>
            startedFiles (snd (onTransferCompleted p)) = [f] \<and>
            filesQueue (fst (onTransferCompleted p)) = rest \<and>
            busy (fst (onTransferCompleted p))"
    by (simp add: onTransferCompleted_def onDownloadProgress_def dequeueFile_def sendFile_def
        startedFiles_append)
  ultimately show ?thesis by blast
qed

theorem sendFiles_one_in_flight_fifo_witness:
  "startedFiles (snd (peerRun (Peer (Some ''B'')) [SendFiles [helloFile, emptyFile]])) = [helloFile] \<and>
   filesQueue (fst (peerRun (Peer (Some ''B'')) [SendFiles [helloFile, emptyFile]])) = [emptyFile] \<and>
   submitted [SendFiles [helloFile, emptyFile]] = [helloFile, emptyFile] \<and>
   busy (fst (peerRun (Peer (Some ''B'')) [SendFiles [helloFile, emptyFile]])) \<and>
   startedFiles (snd (sendFiles (fst (peerRun (Peer (Some ''B'')) [SendFiles [helloFile, emptyFile]]))
       [helloFile])) = [] \<and>
   startedFiles (snd (onTransferCompleted
       (fst (peerRun (Peer (Some ''B'')) [SendFiles [helloFile, emptyFile]])))) = [emptyFile]"
proof -
  have r: "peerRun (Peer (Some ''B'')) [SendFiles [helloFile, emptyFile]] =
      (fst (peerRun (Peer (Some ''B'')) [SendFiles [helloFile, emptyFile]]),
       snd (peerRun (Peer (Some ''B'')) [SendFiles [helloFile, emptyFile]]))"
    by simp
  have q: "filesQueue (fst (peerRun (Peer (Some ''B'')) [SendFiles [helloFile, emptyFile]])) = [emptyFile]"
    and b: "busy (fst (peerRun (Peer (Some ''B'')) [SendFiles [helloFile, emptyFile]]))"
    and s: "startedFiles (snd (peerRun (Peer (Some ''B'')) [SendFiles [helloFile, emptyFile]])) = [helloFile]"
    by (simp_all add: Peer_def sendFiles_def dequeueFile_def sendFile_def Let_def)
  from sendFiles_one_in_flight_fifo [OF r, of "[helloFile]"] q b s show ?thesis
    by simp
qed

section \<open>Properties of the digester\<close>

lemma unchunk_fields:
  "unchunk d c = (d', r) \<Longrightarrow>
     dName d' = dName d \<and> dMime d' = dMime d \<and> dSize d' = dSize d \<and> buffer d' = buffer d @ [c] \<and>
     (callback d' \<longrightarrow> callback d)"
  by (auto simp: unchunk_def Let_def split: if_splits)

lemma unchunk_Completed:
  "unchunk d c = (d', Completed a) \<Longrightarrow>
     callback d \<and> \<not> callback d' \<and>
     a = \<lparr>artName = dName d, artMime = dMime d, artSize = dSize d,
          artUrl = ObjectURL (buffer d @ [c]) (dMime d)\<rparr>"
  by (auto simp: unchunk_def Let_def split: if_splits)

lemma unchunks_no_callback:
  "\<not> callback d \<Longrightarrow> r \<in> set (unchunks d cs) \<Longrightarrow> \<not> isCompleted r"
proof (induction cs arbitrary: d)
  case Nil
  then show ?case by simp
next
  case (Cons c cs)
  obtain d' r' where u: "unchunk d c = (d', r')" by (metis prod.exhaust)
  from unchunk_fields [OF u] Cons.prems(1) have nc: "\<not> callback d'" by blast
  from unchunk_Completed [of d c d'] u Cons.prems(1) have "\<not> isCompleted r'"
    by (cases r') auto
  with Cons.IH [OF nc] Cons.prems(2) u show ?case by auto
qed

lemma unchunks_at_most_once:
  "length (filter isCompleted (unchunks d cs)) \<le> 1"
proof (induction cs arbitrary: d)
  case Nil
  then show ?case by simp
next
  case (Cons c cs)
  obtain d' r' where u: "unchunk d c = (d', r')" by (metis prod.exhaust)
  show ?case
  proof (cases "isCompleted r'")
    case True
    then obtain a where "r' = Completed a" by (cases r') auto
    with unchunk_Completed [of d c d' a] u have "\<not> callback d'" by simp
    then have "filter isCompleted (unchunks d' cs) = []"
      using unchunks_no_callback [of d'] by (auto simp: filter_empty_conv)
    with u True show ?thesis by simp
  next
    case False
    with Cons.IH [of d'] u show ?thesis by simp
  qed
qed

lemma length_unchunks: "length (unchunks d cs) = length cs"
  by (induction cs arbitrary: d) (auto split: prod.splits)

lemma received_Nil: "received [] = 0"
  by (simp add: received_def)

lemma received_Cons: "received (c # cs) = length (chunkBytes c) + received cs"
  by (simp add: received_def)

lemma unchunk_defined:
  assumes "byteLengthOrSize c \<noteq> None" and "bytesReceived d = Num (of_nat b)"
  shows "unchunk d c =
     (if b + length (chunkBytes c) < dSize d
      then (d\<lparr>buffer := buffer d @ [c], bytesReceived := Num (of_nat (b + length (chunkBytes c))),
              dProgress := Some (js_divide (Num (of_nat (b + length (chunkBytes c)))) (Num (of_nat (dSize d))))\<rparr>, Pending)
      else if callback d
      then (d\<lparr>buffer := buffer d @ [c], bytesReceived := Num (of_nat (b + length (chunkBytes c))),
              dProgress := Some (js_divide (Num (of_nat (b + length (chunkBytes c)))) (Num (of_nat (dSize d)))),
              callback := False\<rparr>,
            Completed \<lparr>artName = dName d, artMime = dMime d, artSize = dSize d,
                          artUrl = ObjectURL (buffer d @ [c]) (dMime d)\<rparr>)
      else (d\<lparr>buffer := buffer d @ [c], bytesReceived := Num (of_nat (b + length (chunkBytes c))),
              dProgress := Some (js_divide (Num (of_nat (b + length (chunkBytes c)))) (Num (of_nat (dSize d))))\<rparr>, Threw))"
  using assms
  by (cases c) (auto simp: unchunk_def Let_def simp flip: of_nat_add split: if_splits)

lemma unchunks_completed_iff:
  assumes "\<forall>c \<in> set cs. byteLengthOrSize c \<noteq> None"
    and "bytesReceived d = Num (of_nat b)" and "callback d" and "i < length cs"
  shows "isCompleted (unchunks d cs ! i) \<longleftrightarrow>
           dSize d \<le> b + received (take (Suc i) cs) \<and>
           (\<forall>j<i. b + received (take (Suc j) cs) < dSize d)"
  using assms
proof (induction cs arbitrary: d b i)
  case Nil
  then show ?case by simp
next
  case (Cons c cs)
  let ?b' = "b + length (chunkBytes c)"
  from Cons.prems have def: "byteLengthOrSize c \<noteq> None" by simp
  note u = unchunk_defined [OF def Cons.prems(2)]
  show ?case
  proof (cases "?b' < dSize d")
    case True
    let ?d' = "d\<lparr>buffer := buffer d @ [c], bytesReceived := Num (of_nat ?b'),
              dProgress := Some (js_divide (Num (of_nat ?b')) (Num (of_nat (dSize d))))\<rparr>"
    from True u have uc: "unchunk d c = (?d', Pending)" by simp
    show ?thesis
    proof (cases i)
      case 0
      with uc True show ?thesis by (simp add: received_Cons received_Nil)
    next
      case (Suc k)
      with Cons.prems have k: "k < length cs" by simp
      have ih: "isCompleted (unchunks ?d' cs ! k) \<longleftrightarrow>
           dSize ?d' \<le> ?b' + received (take (Suc k) cs) \<and>
           (\<forall>j<k. ?b' + received (take (Suc j) cs) < dSize ?d')"
        using Cons.prems k by (intro Cons.IH) simp_all
      have "(\<forall>j<Suc k. b + received (take (Suc j) (c # cs)) < dSize d) \<longleftrightarrow>
            (\<forall>j<k. ?b' + received (take (Suc j) cs) < dSize d)"
        using True by (auto simp: received_Cons received_Nil less_Suc_eq_0_disj add.assoc)
      with ih uc Suc show ?thesis by (simp add: received_Cons received_Nil add.assoc)
    qed
  next
    case False
    let ?d' = "d\<lparr>buffer := buffer d @ [c], bytesReceived := Num (of_nat ?b'),
              dProgress := Some (js_divide (Num (of_nat ?b')) (Num (of_nat (dSize d)))),
              callback := False\<rparr>"
    from False u Cons.prems(3) obtain a where uc: "unchunk d c = (?d', Completed a)" by simp
    show ?thesis
    proof (cases i)
      case 0
      with uc False show ?thesis by (simp add: received_Cons received_Nil)
    next
      case (Suc k)
      with Cons.prems have k: "k < length cs" by simp
      have "\<not> isCompleted (unchunks ?d' cs ! k)"
        using unchunks_no_callback [of ?d' "unchunks ?d' cs ! k" cs] k
        by (simp add: length_unchunks)
      moreover have "\<not> (\<forall>j<Suc k. b + received (take (Suc j) (c # cs)) < dSize d)"
        using False by (auto simp: received_Cons received_Nil intro: exI [of _ 0])
      ultimately show ?thesis using uc Suc by simp
    qed
  qed
qed

lemma unchunks_artifact:
  "i < length cs \<Longrightarrow> unchunks d cs ! i = Completed a \<Longrightarrow>
     a = \<lparr>artName = dName d, artMime = dMime d, artSize = dSize d,
          artUrl = ObjectURL (buffer d @ take (Suc i) cs) (dMime d)\<rparr>"
proof (induction cs arbitrary: d i)
  case Nil
  then show ?case by simp
next
  case (Cons c cs)
  obtain d' r' where u: "unchunk d c = (d', r')" by (metis prod.exhaust)
  note f = unchunk_fields [OF u]
  show ?case
  proof (cases i)
    case 0
    with Cons.prems u have "r' = Completed a" by simp
    with unchunk_Completed [of d c d' a] u 0 show ?thesis by simp
  next
    case (Suc k)
    with Cons.prems u have "k < length cs" "unchunks d' cs ! k = Completed a" by simp_all
    from Cons.IH [OF this] f Suc show ?thesis by simp
  qed
qed

text \<open>
  Claim C3, as stated, has the callback receive the declared mime, at the first call at
  which the bytes received reach the declared size. A header whose mime is the empty
  string (what a \<open>File\<close> of unknown type has) yields an artifact of mime
  \<open>application/octet-stream\<close>; and an empty \<open>ArrayBuffer\<close> turns the byte count into
  \<open>NaN\<close>, for which the test \<open>_bytesReceived < _size\<close> is false, so that the callback is
  called after 5 of 10 declared bytes.
\<close>

theorem unchunk_counterexample:
  "unchunks (FileDigester \<lparr>metaName = ''a.bin'', metaMime = Some '''', metaSize = 1\<rparr>)
      [ArrayBuffer [7]] =
     [Completed \<lparr>artName = ''a.bin'', artMime = ''application/octet-stream'', artSize = 1,
                 artUrl = ObjectURL [ArrayBuffer [7]] ''application/octet-stream''\<rparr>] \<and>
   unchunks (FileDigester \<lparr>metaName = ''b.bin'', metaMime = Some ''text/plain'', metaSize = 10\<rparr>)
      [ArrayBuffer [1, 2, 3, 4, 5], ArrayBuffer []] =
     [Pending,
      Completed \<lparr>artName = ''b.bin'', artMime = ''text/plain'', artSize = 10,
                 artUrl = ObjectURL [ArrayBuffer [1, 2, 3, 4, 5], ArrayBuffer []] ''text/plain''\<rparr>]"
  by (simp add: FileDigester_def unchunk_def Let_def)

text \<open>
  Claim C3, amended. For a sequence of \<open>unchunk\<close> calls whose chunks all have a byte count
  (every chunk but the empty \<open>ArrayBuffer\<close>), the callback is called at most once; it is
  called at call \<open>i\<close> exactly when the bytes received reach the declared size at call \<open>i\<close>
  and at no earlier call; and the artifact it is called with carries the declared name and
  size, the declared mime or \<open>application/octet-stream\<close> when that is absent or empty, and
  a handle to the chunks received so far.
\<close>

theorem unchunk_completes_once:
  assumes "\<forall>c \<in> set cs. byteLengthOrSize c \<noteq> None" and "i < length cs"
  shows "length (filter isCompleted (unchunks (FileDigester m) cs)) \<le> 1 \<and>
         (isCompleted (unchunks (FileDigester m) cs ! i) \<longleftrightarrow>
            metaSize m \<le> received (take (Suc i) cs) \<and>
            (\<forall>j<i. received (take (Suc j) cs) < metaSize m)) \<and>
         (\<forall>a. unchunks (FileDigester m) cs ! i = Completed a \<longrightarrow>
            a = \<lparr>artName = metaName m, artMime = mimeOrDefault (metaMime m),
                 artSize = metaSize m,
                 artUrl = ObjectURL (take (Suc i) cs) (mimeOrDefault (metaMime m))\<rparr>)"
proof -
  have b: "bytesReceived (FileDigester m) = Num (of_nat 0)" and c: "callback (FileDigester m)"
    by (simp_all add: FileDigester_def)
  from unchunks_completed_iff [OF assms(1) b c assms(2)]
  have "isCompleted (unchunks (FileDigester m) cs ! i) \<longleftrightarrow>
            metaSize m \<le> received (take (Suc i) cs) \<and>
            (\<forall>j<i. received (take (Suc j) cs) < metaSize m)"
    by (simp add: FileDigester_def)
  moreover have "\<forall>a. unchunks (FileDigester m) cs ! i = Completed a \<longrightarrow>
            a = \<lparr>artName = metaName m, artMime = mimeOrDefault (metaMime m),
                 artSize = metaSize m,
                 artUrl = ObjectURL (take (Suc i) cs) (mimeOrDefault (metaMime m))\<rparr>"
    using unchunks_artifact [OF assms(2), of "FileDigester m"] by (simp add: FileDigester_def)
  ultimately show ?thesis using unchunks_at_most_once [of "FileDigester m" cs] by blast
qed

theorem unchunk_completes_once_witness:
  "unchunks (FileDigester \<lparr>metaName = ''hi.txt'', metaMime = Some ''text/plain'', metaSize = 5\<rparr>)
      [ArrayBuffer [104, 101], ArrayBuffer [108, 108, 111], ArrayBuffer [33]] ! 1 =
     Completed \<lparr>artName = ''hi.txt'', artMime = ''text/plain'', artSize = 5,
                artUrl = ObjectURL [ArrayBuffer [104, 101], ArrayBuffer [108, 108, 111]] ''text/plain''\<rparr> \<and>
   (5::nat) \<le> received (take (Suc 1) [ArrayBuffer [104, 101], ArrayBuffer [108, 108, 111], ArrayBuffer [33]]) \<and>
   received (take (Suc 0) [ArrayBuffer [104, 101], ArrayBuffer [108, 108, 111], ArrayBuffer [33]]) < 5 \<and>
   length (filter isCompleted
     (unchunks (FileDigester \<lparr>metaName = ''hi.txt'', metaMime = Some ''text/plain'', metaSize = 5\<rparr>)
        [ArrayBuffer [104, 101], ArrayBuffer [108, 108, 111], ArrayBuffer [33]])) = 1"
proof -
  have d: "\<forall>c \<in> set [ArrayBuffer [104, 101], ArrayBuffer [108, 108, 111], ArrayBuffer [33]].
             byteLengthOrSize c \<noteq> None"
    by simp
  have i: "(1::nat) < length [ArrayBuffer [104, 101], ArrayBuffer [108, 108, 111], ArrayBuffer [33]]"
    by simp
  have r: "(5::nat) \<le> received (take (Suc 1)
             [ArrayBuffer [104, 101], ArrayBuffer [108, 108, 111], ArrayBuffer [33]])"
    "received (take (Suc 0) [ArrayBuffer [104, 101], ArrayBuffer [108, 108, 111], ArrayBuffer [33]]) < 5"
    by (simp_all add: received_def)
  have f: "filter isCompleted
     (unchunks (FileDigester \<lparr>metaName = ''hi.txt'', metaMime = Some ''text/plain'', metaSize = 5\<rparr>)
        [ArrayBuffer [104, 101], ArrayBuffer [108, 108, 111], ArrayBuffer [33]]) \<noteq> []"
    by (simp add: FileDigester_def unchunk_def Let_def)
  from unchunk_completes_once [OF d i,
      of "\<lparr>metaName = ''hi.txt'', metaMime = Some ''text/plain'', metaSize = 5\<rparr>"] r f
  show ?thesis
    by (cases "unchunks (FileDigester \<lparr>metaName = ''hi.txt'', metaMime = Some ''text/plain'', metaSize = 5\<rparr>)
      [ArrayBuffer [104, 101], ArrayBuffer [108, 108, 111], ArrayBuffer [33]] ! 1")
       (auto simp: less_Suc_eq le_Suc_eq)
qed

section \<open>Progress reports of the receiver\<close>

text \<open>When the progress and the last reported progress are finite numbers, the message is
  sent exactly when the progress exceeds the last reported one by at least a hundredth.\<close>

lemma progress_message_iff:
  assumes "pDigester p = Some d" and "unchunk d chunk = (d', r)" and "r \<noteq> Threw"
    and "dProgress d' = Some (Num q)" and "lastProgress p = Some (Num l)"
  shows "SendJSON (Progress (Some (Num q))) \<in> set (fst (snd (onChunkReceived p chunk)))
           \<longleftrightarrow> l + 1 / 100 \<le> q"
  using assms
  by (cases r) (auto simp: onChunkReceived_def Let_def onFileReceived_def onDownloadProgress_def)

text \<open>
  Claim C8. A progress message is claimed to be sent exactly when the new progress exceeds
  the last reported one by at least 0.01. When the header announces an empty file and the
  first frame is the empty \<open>ArrayBuffer\<close> (which is what the sending chunker emits for
  such a file), the byte count and the progress are \<open>NaN\<close>; \<open>NaN - 0 < 0.01\<close> is false,
  so the handler does not return early: it records \<open>NaN\<close> as the last progress and sends
  it in a progress message.
\<close>

theorem progress_message_on_NaN:
  "snd (onChunkReceived (onFileHeader (Peer (Some ''A'')) ''empty'' (Some '''') 0) (ArrayBuffer [])) =
     ([Fire (FileReceived \<lparr>artName = ''empty'', artMime = ''application/octet-stream'', artSize = 0,
                            artUrl = ObjectURL [ArrayBuffer []] ''application/octet-stream''\<rparr>),
       SendJSON TransferCompleteMsg,
       Fire (FileProgress (Some ''A'') (Some NaN)),
       SendJSON (Progress (Some NaN))], None) \<and>
   lastProgress (fst (onChunkReceived (onFileHeader (Peer (Some ''A'')) ''empty'' (Some '''') 0)
       (ArrayBuffer []))) = Some NaN"
  by (simp add: onChunkReceived_def onFileHeader_def Peer_def FileDigester_def unchunk_def
      onFileReceived_def onDownloadProgress_def Let_def)

section \<open>Properties of the RTC session\<close>

lemma callerB_fields:
  "isCallerPrivate callerB = Some True" "isCaller callerB = None"
  "rtcConnection callerB = Some \<lparr>connectionState = StateNew\<rparr>" "dataChannel callerB = None"
  "peerId callerB = Some ''B''"
  by (simp_all add: callerB_def RTCPeer_def start_def Peer_def peer.defs rtcpeer.defs)

lemma RTCPeer_caller_actions:
  "snd (RTCPeer (Some ''B'')) = [NewRTCPeerConnection, CreateDataChannel, CreateOffer]"
  by (simp add: RTCPeer_def start_def createChannel_def Peer_def peer.defs rtcpeer.defs)

text \<open>No operation of the session assigns the property \<open>isCaller\<close>: it is \<open>undefined\<close>
  after the constructor and stays so.\<close>

lemma RTCPeer_isCaller: "isCaller (fst (RTCPeer pid)) = None"
  by (simp add: RTCPeer_def Let_def start_def peer.defs rtcpeer.defs split: prod.splits)

lemma start_isCaller: "isCaller (fst (start p pid c)) = isCaller p"
  by (simp add: start_def split: prod.splits)

lemma onChannelOpened_isCaller: "isCaller (onChannelOpened p ch) = isCaller p"
  by (simp add: onChannelOpened_def)

lemma onChannelClosed_isCaller: "isCaller (fst (onChannelClosed p)) = isCaller p"
  by (simp add: onChannelClosed_def start_isCaller)

lemma refresh_isCaller: "isCaller (fst (refresh p)) = isCaller p"
  by (simp add: refresh_def start_isCaller)

lemma onChannelClosed_undefined_isCaller:
  "isCaller p = None \<Longrightarrow> onChannelClosed p = (p, [])"
  by (simp add: onChannelClosed_def)

text \<open>
  Claim C5. A session in the caller role is claimed to start the handshake again when its
  data channel closes. The session constructed for the peer \<open>B\<close> is the caller
  (\<open>_isCaller\<close> is true). When its channel closes, directly or through the connection
  states \<open>disconnected\<close> and \<open>failed\<close>, \<open>_onChannelClosed\<close> tests \<open>isCaller\<close>, which is
  \<open>undefined\<close>, and returns: no connection, channel or offer is created, and after
  \<open>failed\<close> the session is left without a connection.
\<close>

theorem channel_closed_caller_no_restart:
  "isCallerPrivate (callerWith Open) = Some True \<and>
   onChannelClosed (callerWith Open) = (callerWith Open, []) \<and>
   onConnectionStateChange
     ((callerWith Open)\<lparr>rtcConnection := Some \<lparr>connectionState = StateDisconnected\<rparr>\<rparr>) =
     Inr ((callerWith Open)\<lparr>rtcConnection := Some \<lparr>connectionState = StateDisconnected\<rparr>\<rparr>, []) \<and>
   onConnectionStateChange
     ((callerWith Open)\<lparr>rtcConnection := Some \<lparr>connectionState = StateFailed\<rparr>\<rparr>) =
     Inr ((callerWith Open)\<lparr>rtcConnection := None\<rparr>, [])"
  by (simp add: callerWith_def onChannelOpened_def onChannelClosed_def onConnectionStateChange_def
      callerB_fields)

text \<open>\<open>refresh\<close> does nothing exactly when the connection is there and the channel is there
  and not open.\<close>

lemma refresh_noop_iff:
  "snd (refresh p) = [] \<longleftrightarrow>
     rtcConnection p \<noteq> None \<and> (\<exists>ch. dataChannel p = Some ch \<and> readyState ch \<noteq> Open)"
  by (auto simp: refresh_def start_def createChannel_def split: option.splits)

text \<open>
  Claim C6. \<open>refresh\<close> is claimed to restart the handshake when the channel is absent or
  not open and to do nothing when it is open. For the caller session with its connection
  in place it does the opposite: with an open channel it creates another data channel and
  another offer, and with a channel that is closed or still connecting it does nothing.
\<close>

theorem refresh_inverted:
  "refresh (callerWith Open) = (callerWith Open, [CreateDataChannel, CreateOffer]) \<and>
   refresh (callerWith Closed) = (callerWith Closed, []) \<and>
   refresh (callerWith Connecting) = (callerWith Connecting, [])"
  by (simp add: callerWith_def onChannelOpened_def refresh_def start_def createChannel_def
      callerB_fields)

section \<open>Properties of the registry\<close>

lemma onPeerLeft_no_error: "onPeerLeft peers pid \<noteq> Inl e"
  by (cases "peers pid"; cases "the (peers pid)")
     (auto simp: onPeerLeft_def Let_def split: option.splits)

lemma onPeerLeft_connected:
  "peers pid = Some (RTCSession p) \<Longrightarrow> rtcConnection p = Some conn \<Longrightarrow>
   onPeerLeft peers pid = Inr (peers(pid := None), [CloseConnection conn])"
  by (simp add: onPeerLeft_def Let_def)

text \<open>
  Claim C10. For a peer id that is not registered, \<open>_onPeerLeft\<close> returns without an error
  and leaves the registry as it was. For a registered session without a connection object
  it returns without an error, removes the entry of that id and closes nothing.
\<close>

theorem onPeerLeft_unknown_or_unconnected:
  "(peers pid = None \<longrightarrow> onPeerLeft peers pid = Inr (peers, [])) \<and>
   (\<forall>s. peers pid = Some s \<and> peerField (Some s) = Inr None \<longrightarrow>
        onPeerLeft peers pid = Inr (peers(pid := None), []))"
  by (auto simp: onPeerLeft_def Let_def)

theorem onPeerLeft_unknown_or_unconnected_witness:
  "(Map.empty :: registry) ''p'' = None \<and>
   onPeerLeft Map.empty ''p'' = Inr (Map.empty, []) \<and>
   [''w'' \<mapsto> WSSession] ''w'' = Some WSSession \<and> peerField (Some WSSession) = Inr None \<and>
   onPeerLeft [''w'' \<mapsto> WSSession] ''w'' = Inr (Map.empty, [])"
  using onPeerLeft_unknown_or_unconnected [of Map.empty "''p''"]
    onPeerLeft_unknown_or_unconnected [of "[''w'' \<mapsto> WSSession]" "''w''"]
  by simp

section \<open>Properties of the text path\<close>

subsection \<open>Base64\<close>

lemma base64Char_plain: "\<not> isAsciiWhitespace (base64Char n) \<and> base64Char n \<noteq> 61"
  by (auto simp: base64Char_def isAsciiWhitespace_def)

lemma base64Val_base64Char: "n < 64 \<Longrightarrow> base64Val (base64Char n) = Some n"
  by (auto simp: base64Char_def base64Val_def)

lemma pad_plain: "\<not> isAsciiWhitespace 61"
  by (simp add: isAsciiWhitespace_def)

lemma base64Encode_no_whitespace:
  "filter (\<lambda>c. \<not> isAsciiWhitespace c) (base64Encode bs) = base64Encode bs"
  by (induction bs rule: base64Encode.induct)
     (simp_all add: base64Char_plain pad_plain)

lemma length_base64Encode: "length (base64Encode bs) mod 4 = 0"
  by (induction bs rule: base64Encode.induct) simp_all

lemma base64Encode_Nil_iff: "base64Encode bs = [] \<longleftrightarrow> bs = []"
  by (induction bs rule: base64Encode.induct) simp_all

lemma length_base64Encode_ge: "bs \<noteq> [] \<Longrightarrow> 4 \<le> length (base64Encode bs)"
  by (induction bs rule: base64Encode.induct) simp_all

lemma stripPadding_append:
  assumes "length F mod 4 = 0" and "2 \<le> length E"
  shows "stripPadding (F @ E) = F @ stripPadding E"
proof -
  from assms(2) have ne: "E \<noteq> []" "butlast E \<noteq> []" by (auto simp: butlast_conv_take)
  then have "last (F @ E) = last E" "butlast (F @ E) = F @ butlast E"
    "last (F @ butlast E) = last (butlast E)" "butlast (F @ butlast E) = F @ butlast (butlast E)"
    by (simp_all add: butlast_append)
  moreover from assms(1) have "length (F @ E) mod 4 = length E mod 4"
    by (simp add: mod_add_left_eq [symmetric, of "length F"])
  ultimately show ?thesis using ne by (simp add: stripPadding_def)
qed

lemma div_mod_pack:
  fixes a k n :: nat
  assumes "a < n"
  shows "(k * n + a) div n = k" and "(k * n + a) mod n = a"
  using assms by simp_all

lemma sr1: "y < 256 \<Longrightarrow> x div 4 * 4 + ((x mod 4) * 16 + y div 16) div 16 = (x::nat)"
proof -
  assume "y < 256"
  then have "y div 16 < 16" by (simp add: div_less_iff_less_mult)
  from div_mod_pack(1) [OF this, of "x mod 4"] show ?thesis by simp
qed

lemma sr2: "y < 256 \<Longrightarrow> z < 256 \<Longrightarrow> (((x mod 4) * 16 + y div 16) mod 16) * 16 + ((y mod 16) * 4 + z div 64) div 4 = (y::nat)"
proof -
  assume "y < 256" "z < 256"
  then have "y div 16 < 16" "z div 64 < 4" by (simp_all add: div_less_iff_less_mult)
  from div_mod_pack(2) [OF this(1), of "x mod 4"] div_mod_pack(1) [OF this(2), of "y mod 16"]
  show ?thesis by simp
qed

lemma sr3: "z < 256 \<Longrightarrow> (((y mod 16) * 4 + z div 64) mod 4) * 64 + z mod 64 = (z::nat)"
proof -
  assume "z < 256"
  then have "z div 64 < 4" by (simp add: div_less_iff_less_mult)
  from div_mod_pack(2) [OF this, of "y mod 16"] show ?thesis by simp
qed

lemma sr4: "(((x mod 4) * 16 + y div 16) mod 16) * 16 + ((y mod 16) * 4) div 4 = (y::nat)" if "y < 256"
proof -
  from that have "y div 16 < 16" by (simp add: div_less_iff_less_mult)
  from div_mod_pack(2) [OF this, of "x mod 4"] show ?thesis by simp
qed

lemma sr5: "x div 4 * 4 + ((x mod 4) * 16) div 16 = (x::nat)"
  by simp

lemma sx1: "x < 256 \<Longrightarrow> x div 4 < (64::nat)" by (simp add: div_less_iff_less_mult)
lemma sx2: "y < 256 \<Longrightarrow> (x mod 4) * 16 + y div 16 < (64::nat)"
proof -
  assume "y < 256"
  then have "y div 16 < 16" by (simp add: div_less_iff_less_mult)
  moreover have "x mod 4 < 4" by simp
  ultimately show ?thesis by linarith
qed
lemma sx3: "z < 256 \<Longrightarrow> (y mod 16) * 4 + z div 64 < (64::nat)"
proof -
  assume "z < 256"
  then have "z div 64 < 4" by (simp add: div_less_iff_less_mult)
  moreover have "y mod 16 < 16" by simp
  ultimately show ?thesis by linarith
qed
lemma sx5: "(y mod 16) * 4 < (64::nat)"
proof -
  have "y mod 16 < 16" by simp
  then show ?thesis by linarith
qed
lemma sx6: "(x mod 4) * 16 < (64::nat)"
proof -
  have "x mod 4 < 4" by simp
  then show ?thesis by linarith
qed


lemma sx4: "z mod 64 < (64::nat)" by simp

lemma mod4_Suc4: "Suc (Suc (Suc (Suc n))) mod 4 = n mod 4"
proof -
  have "Suc (Suc (Suc (Suc n))) = n + 1 * 4" by simp
  then show ?thesis by (simp only: mod_mult_self1)
qed

lemma goodData_step:
  assumes "goodData S rest" and "x < 256" and "y < 256" and "z < 256"
  shows "goodData ([base64Char (x div 4), base64Char ((x mod 4) * 16 + y div 16),
      base64Char ((y mod 16) * 4 + z div 64), base64Char (z mod 64)] @ S) (x # y # z # rest)"
proof -
  note v = base64Val_base64Char [OF sx1 [OF assms(2)]]
    base64Val_base64Char [OF sx2 [OF assms(3), of x]]
    base64Val_base64Char [OF sx3 [OF assms(4), of y]]
    base64Val_base64Char [OF sx4 [of z]]
  from assms(1) have g: "length S mod 4 \<noteq> 1" "\<not> list_ex (\<lambda>c. base64Val c = None) S"
      "sextetsDecode (map (\<lambda>c. the (base64Val c)) S) = rest"
    by (simp_all add: goodData_def)
  show ?thesis
    unfolding goodData_def
    using g v sr1 [OF assms(3), of x] sr2 [OF assms(3) assms(4), of x] sr3 [OF assms(4), of y]
    by (simp add: mod4_Suc4)
qed

lemma base64_roundtrip_data:
  "\<forall>b \<in> set bs. b < 256 \<Longrightarrow> goodData (stripPadding (base64Encode bs)) bs"
proof (induction bs rule: base64Encode.induct)
  case (1 x y z rest)
  let ?F = "[base64Char (x div 4), base64Char ((x mod 4) * 16 + y div 16),
      base64Char ((y mod 16) * 4 + z div 64), base64Char (z mod 64)]"
  from 1 have b: "x < 256" "y < 256" "z < 256" and r: "\<forall>b \<in> set rest. b < 256" by simp_all
  from 1 r have ih: "goodData (stripPadding (base64Encode rest)) rest" by simp
  have s: "stripPadding (base64Encode (x # y # z # rest)) = ?F @ stripPadding (base64Encode rest)"
  proof (cases "rest = []")
    case True
    have "stripPadding ?F = ?F" by (simp add: stripPadding_def base64Char_plain)
    moreover have "stripPadding [] = []" by (simp add: stripPadding_def)
    ultimately show ?thesis using True by simp
  next
    case False
    from length_base64Encode_ge [OF False] have "2 \<le> length (base64Encode rest)" by simp
    from stripPadding_append [OF _ this, of ?F] show ?thesis by simp
  qed
  show ?case unfolding s by (rule goodData_step [OF ih b])
next
  case (2 x y)
  then have b: "x < 256" "y < 256" by simp_all
  note v = base64Val_base64Char [OF sx1 [OF b(1)]]
    base64Val_base64Char [OF sx2 [OF b(2), of x]]
    base64Val_base64Char [OF sx5 [of y]]
  have "stripPadding (base64Encode [x, y]) = [base64Char (x div 4), base64Char ((x mod 4) * 16 + y div 16),
      base64Char ((y mod 16) * 4)]"
    by (simp add: stripPadding_def base64Char_plain)
  with v sr1 [OF b(2), of x] sr4 [OF b(2), of x] show ?case by (simp add: goodData_def)
next
  case (3 x)
  then have b: "x < 256" by simp
  note v = base64Val_base64Char [OF sx1 [OF b(1)]]
    base64Val_base64Char [OF sx6 [of x]]
  have "stripPadding (base64Encode [x]) = [base64Char (x div 4), base64Char ((x mod 4) * 16)]"
    by (simp add: stripPadding_def)
  with v sr5 [of x] show ?case by (simp add: goodData_def)
next
  case 4
  show ?case by (simp add: goodData_def stripPadding_def)
qed

lemma atob_base64Encode:
  "\<forall>b \<in> set bs. b < 256 \<Longrightarrow> atob (base64Encode bs) = Inr bs"
  using base64_roundtrip_data [of bs]
  by (simp add: atob_def base64Encode_no_whitespace goodData_def Let_def)


subsection \<open>Hexadecimal escapes\<close>

lemma hexVal_hexDigit: "n < 16 \<Longrightarrow> hexVal (hexDigit n) = Some n"
  by (auto simp: hexVal_def hexDigit_def)

lemma hexDigit_not_u: "n < 16 \<Longrightarrow> hexDigit n \<noteq> 117"
  by (auto simp: hexDigit_def)

lemma byte_nibbles:
  fixes b :: nat
  assumes "b < 256"
  shows "b div 16 < 16" and "b mod 16 < 16" and "16 * (b div 16) + b mod 16 = b"
  using assms by (simp_all add: div_less_iff_less_mult)

lemma hexValue_byte:
  assumes "b < 256"
  shows "hexValue 0 [hexDigit (b div 16), hexDigit (b mod 16)] = Some b"
  using byte_nibbles [OF assms]
  by (simp add: hexVal_hexDigit)

lemma hex2_byte:
  "b < 256 \<Longrightarrow> hex2 (hexDigit (b div 16) # hexDigit (b mod 16) # rest) = Some b"
  using hexValue_byte [of b] by (simp add: hex2_def)

lemma hex4_byte:
  "b < 256 \<Longrightarrow> hex4 (hexDigit (b div 16) # rest) = None"
  using hexDigit_not_u [OF byte_nibbles(1), of b] by (simp add: hex4_def)

lemma unescape_percent:
  "b < 256 \<Longrightarrow> unescape (percent b @ rest) = b # unescape rest"
  by (simp add: percent_def hex4_byte hex2_byte)

lemma unescape_percents:
  "\<forall>b \<in> set bs. b < 256 \<Longrightarrow> unescape (concat (map percent bs) @ rest) = bs @ unescape rest"
  by (induction bs) (simp_all add: unescape_percent del: unescape.simps)

lemma unescape_plain: "c \<noteq> 37 \<Longrightarrow> unescape (c # rest) = c # unescape rest"
  by simp

lemma length_percents: "length (concat (map percent bs)) = 3 * length bs"
  by (induction bs) (simp_all add: percent_def)

lemma drop_percents: "drop (3 * length bs) (concat (map percent bs) @ z) = z"
  using length_percents [of bs] by (metis append_eq_conv_conj)

lemma percentOctets_percents:
  "\<forall>b \<in> set bs. b < 256 \<Longrightarrow>
     percentOctets (length bs) (concat (map percent bs) @ z) = Some bs"
proof (induction bs)
  case Nil
  then show ?case by simp
next
  case (Cons b bs)
  then have b: "b < 256" and ih: "percentOctets (length bs) (concat (map percent bs) @ z) = Some bs"
    by simp_all
  have "percentOctets (Suc (length bs)) (percent b @ concat (map percent bs) @ z) = Some (b # bs)"
    using hexValue_byte [OF b] ih by (simp add: percent_def)
  then show ?case by simp
qed

lemma escape_append: "escape (xs @ ys) = escape xs @ escape ys"
  by (simp add: escape_def)

lemma escapeUnit_high: "128 \<le> b \<Longrightarrow> b < 256 \<Longrightarrow> escapeUnit b = percent b"
  by (simp add: escapeUnit_def escapeUnescaped_def isAlnum_def)

lemma escape_high: "\<forall>b \<in> set bs. 128 \<le> b \<and> b < 256 \<Longrightarrow> escape bs = concat (map percent bs)"
  by (induction bs) (simp_all add: escape_def escapeUnit_high)

lemma decode_plain:
  "c \<noteq> 37 \<Longrightarrow> decodeURIComponent (c # rest) =
     (case decodeURIComponent rest of Inl e \<Rightarrow> Inl e | Inr r \<Rightarrow> Inr (c # r))"
  by simp

lemma decode_percent:
  assumes "b < 256"
  shows "decodeURIComponent (percent b @ rest) =
     (if leadingOnes b = 0
      then (case decodeURIComponent rest of Inl e \<Rightarrow> Inl e | Inr r \<Rightarrow> Inr (b # r))
      else if leadingOnes b = 1 \<or> 4 < leadingOnes b then Inl URIError
      else (case percentOctets (leadingOnes b - 1) rest of
              None \<Rightarrow> Inl URIError
            | Some bs \<Rightarrow>
                (case utf8Decode (b # bs) of
                   None \<Rightarrow> Inl URIError
                 | Some cp \<Rightarrow>
                     (case decodeURIComponent (drop (3 * (leadingOnes b - 1)) rest) of
                        Inl e \<Rightarrow> Inl e
                      | Inr r \<Rightarrow> Inr (utf16Encode cp @ r)))))"
  using hex2_byte [OF assms, of rest]
  by (simp add: percent_def Let_def cong: option.case_cong sum.case_cong)

text \<open>A sequence of two to four octets, all with the high bit set, whose first octet
  announces their number and which encodes a code point, is decoded to that code point.\<close>

lemma decode_multibyte:
  assumes "\<forall>b \<in> set (b0 # bs). 128 \<le> b \<and> b < 256"
    and "leadingOnes b0 = Suc (length bs)" and "1 \<le> length bs" and "length bs \<le> 3"
    and "utf8Decode (b0 # bs) = Some cp"
  shows "decodeURIComponent (escape (b0 # bs) @ z) =
     (case decodeURIComponent z of Inl e \<Rightarrow> Inl e | Inr r \<Rightarrow> Inr (utf16Encode cp @ r))"
proof -
  from assms(1) have b0: "b0 < 256" and bs: "\<forall>b \<in> set bs. b < 256" by auto
  from escape_high [OF assms(1)]
  have e: "escape (b0 # bs) @ z = percent b0 @ (concat (map percent bs) @ z)" by simp
  note po = percentOctets_percents [OF bs, of z] drop_percents [of bs z]
  from assms(2,3) have n: "leadingOnes b0 \<noteq> 0" "leadingOnes b0 \<noteq> 1" "\<not> 4 < leadingOnes b0"
    "leadingOnes b0 - 1 = length bs"
    using assms(4) by auto
  show ?thesis
    unfolding e decode_percent [OF b0]
    using n po assms(5) by simp
qed


subsection \<open>UTF-8\<close>

lemma radix64_2:
  fixes cp :: nat
  shows "cp div 64 * 64 + cp mod 64 = cp"
  by simp

lemma radix64_3:
  fixes cp :: nat
  shows "cp div 4096 * 4096 + cp div 64 mod 64 * 64 + cp mod 64 = cp"
proof -
  define a where "a = cp div 64"
  define r where "r = cp mod 64"
  define b where "b = a div 64"
  define s where "s = a mod 64"
  have 1: "cp = a * 64 + r" by (simp add: a_def r_def)
  have 2: "a = b * 64 + s" by (simp add: b_def s_def)
  have e: "cp div 4096 = b" by (simp add: b_def a_def div_mult2_eq)
  have "b * 4096 + s * 64 + r = cp" unfolding 1 2 by simp
  then show ?thesis unfolding e s_def a_def r_def .
qed

lemma radix64_4:
  fixes cp :: nat
  shows "cp div 262144 * 262144 + cp div 4096 mod 64 * 4096 + cp div 64 mod 64 * 64 + cp mod 64 = cp"
proof -
  define a where "a = cp div 4096"
  define b where "b = a div 64"
  define s where "s = a mod 64"
  define t where "t = cp div 64 mod 64 * 64 + cp mod 64"
  have 1: "a * 4096 + t = cp" unfolding a_def t_def using radix64_3 [of cp] by simp
  have 2: "a = b * 64 + s" by (simp add: b_def s_def)
  have e: "cp div 262144 = b" by (simp add: b_def a_def div_mult2_eq)
  have "b * 262144 + s * 4096 + t = cp" using 1 unfolding 2 by simp
  then show ?thesis unfolding e s_def a_def t_def by simp
qed

lemma utf8Encode_multibyte:
  assumes "128 \<le> cp" and "cp < 1114112" and "\<not> (55296 \<le> cp \<and> cp \<le> 57343)"
  shows "\<exists>b0 bs. utf8Encode cp = b0 # bs \<and> (\<forall>b \<in> set (b0 # bs). 128 \<le> b \<and> b < 256) \<and>
           leadingOnes b0 = Suc (length bs) \<and> 1 \<le> length bs \<and> length bs \<le> 3 \<and>
           utf8Decode (b0 # bs) = Some cp"
proof -
  have m: "cp mod 64 < 128" "cp div 64 mod 64 < 128" "cp div 4096 mod 64 < 128"
    using mod_less_divisor [of 64 cp] mod_less_divisor [of 64 "cp div 64"]
      mod_less_divisor [of 64 "cp div 4096"]
    by linarith+
  have m': "cp mod 64 < 64" "cp div 64 mod 64 < 64" "cp div 4096 mod 64 < 64" by simp_all
  consider "cp < 2048" | "2048 \<le> cp" "cp < 65536" | "65536 \<le> cp" by linarith
  then show ?thesis
  proof cases
    case 1
    then have q: "cp div 64 < 32" by (simp add: div_less_iff_less_mult)
    from assms(1) 1 have u: "utf8Encode cp = [192 + cp div 64, 128 + cp mod 64]"
      by (simp add: utf8Encode_def)
    have "utf8Decode [192 + cp div 64, 128 + cp mod 64] = Some cp"
      using q m(1) assms(1) radix64_2 [of cp] by (simp add: isContinuation_def)
    moreover have "leadingOnes (192 + cp div 64) = 2" using q by (simp add: leadingOnes_def)
    ultimately show ?thesis unfolding u using q m(1) by simp
  next
    case 2
    then have q: "cp div 4096 < 16" by (simp add: div_less_iff_less_mult)
    from 2 have u: "utf8Encode cp = [224 + cp div 4096, 128 + cp div 64 mod 64, 128 + cp mod 64]"
      by (simp add: utf8Encode_def)
    have "utf8Decode [224 + cp div 4096, 128 + cp div 64 mod 64, 128 + cp mod 64] = Some cp"
      using q m(1,2) 2 assms(3) radix64_3 [of cp] by (simp add: isContinuation_def)
    moreover have "leadingOnes (224 + cp div 4096) = 3" using q by (simp add: leadingOnes_def)
    ultimately show ?thesis unfolding u using q m(1,2) by simp
  next
    case 3
    from assms(2) have q: "cp div 262144 < 5" by (simp add: div_less_iff_less_mult)
    from 3 have u: "utf8Encode cp = [240 + cp div 262144, 128 + cp div 4096 mod 64,
        128 + cp div 64 mod 64, 128 + cp mod 64]"
      by (simp add: utf8Encode_def)
    have "utf8Decode [240 + cp div 262144, 128 + cp div 4096 mod 64,
        128 + cp div 64 mod 64, 128 + cp mod 64] = Some cp"
      using q m 3 assms(2) radix64_4 [of cp] by (simp add: isContinuation_def)
    moreover have "leadingOnes (240 + cp div 262144) = 4" using q by (simp add: leadingOnes_def)
    ultimately show ?thesis unfolding u using q m by simp
  qed
qed

lemma utf8Encode_octets:
  assumes "cp < 1114112"
  shows "\<forall>b \<in> set (utf8Encode cp). b < 256"
proof -
  have m: "cp mod 64 < 64" "cp div 64 mod 64 < 64" "cp div 4096 mod 64 < 64" by simp_all
  have "cp < 2048 \<Longrightarrow> cp div 64 < 32" "cp < 65536 \<Longrightarrow> cp div 4096 < 16"
    by (simp_all add: div_less_iff_less_mult)
  moreover from assms have "cp div 262144 < 5" by (simp add: div_less_iff_less_mult)
  ultimately show ?thesis using m by (auto simp: utf8Encode_def)
qed

text \<open>What the receiving side makes of the octets of one code point.\<close>

lemma decode_escape_utf8:
  assumes "cp < 1114112" and "\<not> (55296 \<le> cp \<and> cp \<le> 57343)"
  shows "decodeURIComponent (escape (utf8Encode cp) @ z) =
     (case decodeURIComponent z of Inl e \<Rightarrow> Inl e | Inr r \<Rightarrow> Inr (utf16Encode cp @ r))"
proof (cases "cp < 128")
  case True
  then have u: "utf8Encode cp = [cp]" "utf16Encode cp = [cp]"
    by (simp_all add: utf8Encode_def utf16Encode_def)
  show ?thesis
  proof (cases "escapeUnescaped cp")
    case True
    then have "cp \<noteq> 37" by (auto simp: escapeUnescaped_def isAlnum_def)
    with True show ?thesis unfolding u
      by (simp add: escape_def escapeUnit_def cong: sum.case_cong)
  next
    case False
    from \<open>cp < 128\<close> have b: "cp < 256" and l: "leadingOnes cp = 0"
      by (simp_all add: leadingOnes_def)
    from False b have "escape [cp] @ z = percent cp @ z"
      by (simp add: escape_def escapeUnit_def)
    then show ?thesis unfolding u using decode_percent [OF b, of z] l
      by (simp cong: sum.case_cong)
  qed
next
  case False
  then have "128 \<le> cp" by simp
  from utf8Encode_multibyte [OF this assms]
  obtain b0 bs where u: "utf8Encode cp = b0 # bs"
    and p: "\<forall>b \<in> set (b0 # bs). 128 \<le> b \<and> b < 256" "leadingOnes b0 = Suc (length bs)"
      "1 \<le> length bs" "length bs \<le> 3" "utf8Decode (b0 # bs) = Some cp"
    by blast
  show ?thesis unfolding u by (rule decode_multibyte [OF p])
qed

lemma utf16Encode_pair:
  assumes "isLeadSurrogate c" and "isTrailSurrogate d"
  shows "utf16Encode (surrogatePairToCodePoint c d) = [c, d]"
    and "surrogatePairToCodePoint c d < 1114112"
    and "\<not> (55296 \<le> surrogatePairToCodePoint c d \<and> surrogatePairToCodePoint c d \<le> 57343)"
proof -
  from assms have c: "55296 \<le> c" "c \<le> 56319" and d: "56320 \<le> d" "d \<le> 57343"
    by (simp_all add: isLeadSurrogate_def isTrailSurrogate_def)
  then have lt: "d - 56320 < 1024" by simp
  have v: "surrogatePairToCodePoint c d - 65536 = (c - 55296) * 1024 + (d - 56320)"
    by (simp add: surrogatePairToCodePoint_def)
  have ge: "65536 \<le> surrogatePairToCodePoint c d" by (simp add: surrogatePairToCodePoint_def)
  from div_mod_pack [OF lt, of "c - 55296"] c d ge
  show "utf16Encode (surrogatePairToCodePoint c d) = [c, d]"
    unfolding utf16Encode_def v by simp
  from c d show "surrogatePairToCodePoint c d < 1114112"
    by (simp add: surrogatePairToCodePoint_def)
  from ge show "\<not> (55296 \<le> surrogatePairToCodePoint c d \<and> surrogatePairToCodePoint c d \<le> 57343)"
    by simp
qed


subsection \<open>The text path\<close>

lemma code_point_step:
  assumes "cp < 1114112" and "\<not> (55296 \<le> cp \<and> cp \<le> 57343)"
    and "\<forall>b \<in> set u. b < 256" and "decodeURIComponent (escape u) = Inr r"
  shows "\<forall>b \<in> set (utf8Encode cp @ u). b < 256"
    and "decodeURIComponent (escape (utf8Encode cp @ u)) = Inr (utf16Encode cp @ r)"
  using utf8Encode_octets [OF assms(1)] assms(3)
    decode_escape_utf8 [OF assms(1,2), of "escape u"] assms(4)
  by (auto simp: escape_append)

lemma uriUnescaped_ascii: "uriUnescaped c \<Longrightarrow> c < 128 \<and> c \<noteq> 37"
  by (auto simp: uriUnescaped_def isAlnum_def)

lemma encode_unescape_unit:
  assumes "c < 65536" and "\<not> isLeadSurrogate c" and "\<not> isTrailSurrogate c"
    and "encodeURIComponent rest = Inr e'"
  shows "\<exists>e. encodeURIComponent (c # rest) = Inr e \<and> unescape e = utf8Encode c @ unescape e'"
proof (cases "uriUnescaped c")
  case True
  from uriUnescaped_ascii [OF True] have "utf8Encode c = [c]" "c \<noteq> 37"
    by (simp_all add: utf8Encode_def)
  with True assms(4) show ?thesis by simp
next
  case False
  from assms(1) have "c < 1114112" by simp
  from unescape_percents [OF utf8Encode_octets [OF this], of e'] False assms(2-4)
  show ?thesis by simp
qed

lemma encode_unescape_pair:
  assumes "isLeadSurrogate c" and "isTrailSurrogate d"
    and "encodeURIComponent rest = Inr e'"
  shows "\<exists>e. encodeURIComponent (c # d # rest) = Inr e \<and>
           unescape e = utf8Encode (surrogatePairToCodePoint c d) @ unescape e'"
proof -
  from assms(1) have n: "\<not> uriUnescaped c" "\<not> isTrailSurrogate c"
    using uriUnescaped_ascii [of c] by (auto simp: isLeadSurrogate_def isTrailSurrogate_def)
  from unescape_percents [OF utf8Encode_octets [OF utf16Encode_pair(2) [OF assms(1,2)]], of e']
    n assms
  show ?thesis by simp
qed

lemma text_codec_roundtrip:
  "wellFormed m \<Longrightarrow>
     \<exists>e. encodeURIComponent m = Inr e \<and> (\<forall>b \<in> set (unescape e). b < 256) \<and>
         decodeURIComponent (escape (unescape e)) = Inr m"
proof (induction m rule: wellFormed.induct)
  case 1
  show ?case by (simp add: escape_def)
next
  case (2 c rest)
  show ?case
  proof (cases "isLeadSurrogate c")
    case True
    with "2.prems" obtain d rest' where r: "rest = d # rest'" and d: "isTrailSurrogate d"
      and w: "wellFormed rest'"
      by (auto split: list.splits)
    from "2.IH"(1) [OF True r w] obtain e' where e': "encodeURIComponent rest' = Inr e'"
      "\<forall>b \<in> set (unescape e'). b < 256" "decodeURIComponent (escape (unescape e')) = Inr rest'"
      by blast
    from encode_unescape_pair [OF True d e'(1)] obtain e where
      e: "encodeURIComponent (c # d # rest') = Inr e"
         "unescape e = utf8Encode (surrogatePairToCodePoint c d) @ unescape e'"
      by blast
    note p = utf16Encode_pair [OF True d]
    from code_point_step [OF p(2) p(3) e'(2) e'(3)] e p(1) r show ?thesis by simp
  next
    case False
    with "2.prems" have c: "c < 65536" "\<not> isTrailSurrogate c" and w: "wellFormed rest"
      by simp_all
    from "2.IH"(2) [OF False w] obtain e' where e': "encodeURIComponent rest = Inr e'"
      "\<forall>b \<in> set (unescape e'). b < 256" "decodeURIComponent (escape (unescape e')) = Inr rest"
      by blast
    from encode_unescape_unit [OF c(1) False c(2) e'(1)] obtain e where
      e: "encodeURIComponent (c # rest) = Inr e" "unescape e = utf8Encode c @ unescape e'"
      by blast
    from c False have v: "c < 1114112" "\<not> (55296 \<le> c \<and> c \<le> 57343)" "utf16Encode c = [c]"
      by (auto simp: isLeadSurrogate_def isTrailSurrogate_def utf16Encode_def)
    from code_point_step [OF v(1) v(2) e'(2) e'(3)] e v(3) show ?thesis by simp
  qed
qed

text \<open>
  Claim C4, as stated, is about every string. A string that consists of a single leading
  surrogate is a string, and \<open>sendText\<close> throws on it: nothing is sent.
\<close>

theorem sendText_lone_surrogate_counterexample:
  "sendText [55296] = Inl URIError"
  by (simp add: sendText_def uriUnescaped_def isAlnum_def isTrailSurrogate_def
      isLeadSurrogate_def)

text \<open>
  Claim C4, amended. For every well-formed string (every surrogate is part of a pair),
  \<open>sendText\<close> produces a text frame, and \<open>_onTextReceived\<close>, given the \<open>text\<close> field of
  that frame, fires \<open>text-received\<close> with the string that was sent. The frame is taken to
  arrive as it was sent.
\<close>

theorem text_roundtrip:
  assumes "wellFormed m"
  shows "\<exists>t. sendText m = Inr (TextMsg t) \<and>
             onTextReceived p t = Inr (TextReceived m (peerId p))"
proof -
  from text_codec_roundtrip [OF assms] obtain e where e: "encodeURIComponent m = Inr e"
    "\<forall>b \<in> set (unescape e). b < 256" "decodeURIComponent (escape (unescape e)) = Inr m"
    by blast
  from e(2) have "\<not> list_ex (\<lambda>c. 255 < c) (unescape e)"
    by (auto simp: list_ex_iff)
  then have b: "btoa (unescape e) = Inr (base64Encode (unescape e))"
    by (simp add: btoa_def)
  from e(1) b have "sendText m = Inr (TextMsg (base64Encode (unescape e)))"
    by (simp add: sendText_def)
  moreover from atob_base64Encode [OF e(2)] e(3)
  have "onTextReceived p (base64Encode (unescape e)) = Inr (TextReceived m (peerId p))"
    by (simp add: onTextReceived_def)
  ultimately show ?thesis by blast
qed

theorem text_roundtrip_witness:
  "wellFormed [104, 233, 108, 108, 111, 32, 55356, 57101] \<and>
   sendText [104, 233, 108, 108, 111, 32, 55356, 57101] =
     Inr (TextMsg [97, 77, 79, 112, 98, 71, 120, 118, 73, 80, 67, 102, 106, 73, 48, 61]) \<and>
   onTextReceived (Peer None) [97, 77, 79, 112, 98, 71, 120, 118, 73, 80, 67, 102, 106, 73, 48, 61] =
     Inr (TextReceived [104, 233, 108, 108, 111, 32, 55356, 57101] None)"
proof -
  have w: "wellFormed [104, 233, 108, 108, 111, 32, 55356, 57101]"
    by (simp add: isLeadSurrogate_def isTrailSurrogate_def)
  have e: "encodeURIComponent [104, 233, 108, 108, 111, 32, 55356, 57101] =
     Inr [104, 37, 67, 51, 37, 65, 57, 108, 108, 111, 37, 50, 48, 37, 70, 48,
          37, 57, 70, 37, 56, 67, 37, 56, 68]"
    by (simp add: uriUnescaped_def isAlnum_def isLeadSurrogate_def isTrailSurrogate_def
        utf8Encode_def surrogatePairToCodePoint_def percent_def hexDigit_def)
  have u: "unescape [104, 37, 67, 51, 37, 65, 57, 108, 108, 111, 37, 50, 48, 37, 70, 48,
          37, 57, 70, 37, 56, 67, 37, 56, 68] =
     [104, 195, 169, 108, 108, 111, 32, 240, 159, 140, 141]"
    by (simp add: hex4_def hex2_def hexVal_def)
  have b: "btoa [104, 195, 169, 108, 108, 111, 32, 240, 159, 140, 141] =
     Inr [97, 77, 79, 112, 98, 71, 120, 118, 73, 80, 67, 102, 106, 73, 48, 61]"
    by (simp add: btoa_def base64Char_def)
  have s: "sendText [104, 233, 108, 108, 111, 32, 55356, 57101] =
     Inr (TextMsg [97, 77, 79, 112, 98, 71, 120, 118, 73, 80, 67, 102, 106, 73, 48, 61])"
    unfolding sendText_def e sum.case u b by simp
  from text_roundtrip [OF w, of "Peer None"] s w show ?thesis
    by (auto simp: Peer_def)
qed

end
